theory Spec2Isabelle
  imports Main "HOL-Library.Multiset"
begin

section \<open>Data model of the trace tree (pv/views/trace/tracetreeitemowner.cpp)\<close>

text \<open>
  Items are shared objects (\<open>shared_ptr<TraceTreeItem>\<close>).  An object is identified by
  its address \<open>ptr\<close>; its mutable fields live in a store indexed by address, and the
  shape of the tree (which item lists which children in its \<open>items_\<close> vector) is
  a datatype.  A \<open>TraceGroup\<close> is both an item and an owner, so it carries its own
  \<open>items_\<close>.
\<close>

type_synonym ptr = nat

datatype item = Trace ptr | TraceGroup ptr "item list"

fun ptr_of :: "item \<Rightarrow> ptr" where
  "ptr_of (Trace p) = p"
| "ptr_of (TraceGroup p kids) = p"

text \<open>
  The fields of an item that this file reads or writes: \<open>owner\<close> (the back reference,
  \<open>None\<close> for \<open>nullptr\<close>), the results of \<open>enabled()\<close> and \<open>dragging()\<close>, the
  layout offset, and for a leaf its name and the result of its own \<open>v_extents()\<close>.
  The last two and the two flags are declared outside this file and are parameters here.
\<close>

record attrs =
  owner :: "ptr option"
  enabled :: bool
  dragging :: bool
  layout_v_offset :: int
  name :: string
  own_extents :: "int \<times> int"

type_synonym store = "ptr \<Rightarrow> attrs"

datatype error = AssertionFailed

text \<open>The setters \<open>set_owner\<close> and \<open>set_layout_v_offset\<close> of an item are declared
  outside this file; here they write the field and nothing else.\<close>

definition set_owner :: "store \<Rightarrow> ptr \<Rightarrow> ptr option \<Rightarrow> store" where
  "set_owner st p ow = st(p := (st p)\<lparr>owner := ow\<rparr>)"

definition set_layout_v_offset :: "store \<Rightarrow> ptr \<Rightarrow> int \<Rightarrow> store" where
  "set_layout_v_offset st p v = st(p := (st p)\<lparr>layout_v_offset := v\<rparr>)"

subsection \<open>C++ int arithmetic\<close>

text \<open>\<open>int\<close> is 32 bits wide.  C++ leaves the overflow of a signed sum undefined; here
  a sum wraps around in two's complement, as it does on the usual targets.  \<open>/\<close>
  truncates towards zero.\<close>

definition INT_MAX :: int where "INT_MAX = 2147483647"
definition INT_MIN :: int where "INT_MIN = - 2147483648"

definition int32 :: "int \<Rightarrow> int" where
  "int32 x = (x + 2147483648) mod 4294967296 - 2147483648"

definition add32 :: "int \<Rightarrow> int \<Rightarrow> int" where
  "add32 a b = int32 (a + b)"

definition neg32 :: "int \<Rightarrow> int" where
  "neg32 a = int32 (- a)"

definition half32 :: "int \<Rightarrow> int" where
  "half32 a = (if a < 0 then - ((- a) div 2) else a div 2)"

subsection \<open>Flattening views\<close>

definition trace_tree_child_items :: "item list \<Rightarrow> item list" where
  "trace_tree_child_items items = items"

fun trace_tree_leaf_items :: "item list \<Rightarrow> item list"
  and leaf_items_of :: "item \<Rightarrow> item list" where
  "trace_tree_leaf_items [] = []"
| "trace_tree_leaf_items (i # rest) = leaf_items_of i @ trace_tree_leaf_items rest"
| "leaf_items_of (Trace p) = [Trace p]"
| "leaf_items_of (TraceGroup p kids) = trace_tree_leaf_items kids"

text \<open>The addresses of all objects of a forest, in pre-order.\<close>

fun ptrs_of :: "item \<Rightarrow> ptr list" and ptrs_forest :: "item list \<Rightarrow> ptr list" where
  "ptrs_of (Trace p) = [p]"
| "ptrs_of (TraceGroup p kids) = p # ptrs_forest kids"
| "ptrs_forest [] = []"
| "ptrs_forest (t # ts) = ptrs_of t @ ptrs_forest ts"

subsection \<open>Child-list operations\<close>

text \<open>The loop of \<open>clear_child_items\<close>: one assertion and one \<open>set_owner(nullptr)\<close>
  for each element of \<open>trace_tree_child_items()\<close>.\<close>

fun clear_loop :: "ptr \<Rightarrow> item list \<Rightarrow> store \<Rightarrow> error + store" where
  "clear_loop this [] st = Inr st"
| "clear_loop this (t # ts) st =
     (if owner (st (ptr_of t)) \<noteq> Some this then Inl AssertionFailed
      else clear_loop this ts (set_owner st (ptr_of t) None))"

definition clear_child_items :: "ptr \<Rightarrow> item list \<Rightarrow> store \<Rightarrow> error + (item list \<times> store)" where
  "clear_child_items this items st =
     (case clear_loop this (trace_tree_child_items items) st of
        Inl e \<Rightarrow> Inl e
      | Inr st' \<Rightarrow> Inr ([], st'))"

text \<open>\<open>extents_changed(true, true)\<close> is a notification to an observer declared outside
  this file; it is not part of the state modelled here.\<close>

definition add_child_item :: "ptr \<Rightarrow> item list \<Rightarrow> item \<Rightarrow> store \<Rightarrow> error + (item list \<times> store)" where
  "add_child_item this items x st =
     (if owner (st (ptr_of x)) \<noteq> None then Inl AssertionFailed
      else Inr (items @ [x], set_owner st (ptr_of x) (Some this)))"

text \<open>\<open>std::find\<close> compares shared pointers, that is addresses; \<open>erase\<close> removes the
  first match only.\<close>

fun erase_first :: "ptr \<Rightarrow> item list \<Rightarrow> item list option" where
  "erase_first p [] = None"
| "erase_first p (t # ts) =
     (if ptr_of t = p then Some ts
      else (case erase_first p ts of None \<Rightarrow> None | Some ts' \<Rightarrow> Some (t # ts')))"

definition remove_child_item :: "ptr \<Rightarrow> item list \<Rightarrow> item \<Rightarrow> store \<Rightarrow> error + (item list \<times> store)" where
  "remove_child_item this items x st =
     (if owner (st (ptr_of x)) \<noteq> Some this then Inl AssertionFailed
      else (let st' = set_owner st (ptr_of x) None in
            case erase_first (ptr_of x) items of
              None \<Rightarrow> Inl AssertionFailed
            | Some items' \<Rightarrow> Inr (items', st')))"

subsection \<open>Vertical extents\<close>

text \<open>
  Modelled from the spec: the overrides of the virtual \<open>v_extents()\<close> are not in this
  file; a leaf answers with its own extent (a field of the store), a group with the
  aggregated extent of its children, that is with \<open>TraceTreeItemOwner::v_extents\<close> on
  its own \<open>items_\<close>.  That function is \<open>v_extents_loop\<close>, from the source: its loop
  carries \<open>has_children\<close> and the running pair.
\<close>

fun item_v_extents :: "store \<Rightarrow> item \<Rightarrow> int \<times> int"
  and v_extents_loop :: "store \<Rightarrow> item list \<Rightarrow> bool \<times> int \<times> int \<Rightarrow> bool \<times> int \<times> int" where
  "item_v_extents st (Trace p) = own_extents (st p)"
| "item_v_extents st (TraceGroup p kids) =
     (case v_extents_loop st kids (False, INT_MAX, INT_MIN) of
        (has_children, extents) \<Rightarrow> if \<not> has_children then (0, 0) else extents)"
| "v_extents_loop st [] acc = acc"
| "v_extents_loop st (t # ts) acc =
     (case acc of (has_children, lo, hi) \<Rightarrow>
        if \<not> enabled (st (ptr_of t)) then v_extents_loop st ts (has_children, lo, hi)
        else (let child_offset = layout_v_offset (st (ptr_of t));
                  child_extents = item_v_extents st t
              in v_extents_loop st ts
                   (True, min (add32 (fst child_extents) child_offset) lo,
                          max (add32 (snd child_extents) child_offset) hi)))"

definition v_extents :: "store \<Rightarrow> item list \<Rightarrow> int \<times> int" where
  "v_extents st items =
     (case v_extents_loop st (trace_tree_child_items items) (False, INT_MAX, INT_MIN) of
        (has_children, extents) \<Rightarrow> if \<not> has_children then (0, 0) else extents)"

subsection \<open>Restacking\<close>

text \<open>The comparator of \<open>stable_sort\<close> compares this key of its two arguments with
  \<open><\<close>.\<close>

definition center_key :: "store \<Rightarrow> item \<Rightarrow> int" where
  "center_key st a =
     (let aext = item_v_extents st a
      in add32 (layout_v_offset (st (ptr_of a))) (half32 (add32 (fst aext) (snd aext))))"

text \<open>\<open>std::stable_sort\<close> with a comparator that compares keys: the sorted
  permutation in which elements of equal key keep their order.  \<open>sort_key\<close> is the
  insertion sort of the HOL library, which is stable.\<close>

definition stable_sort :: "('a \<Rightarrow> int) \<Rightarrow> 'a list \<Rightarrow> 'a list" where
  "stable_sort k xs = sort_key k xs"

text \<open>The walk over the sorted vector.  It returns \<open>total_offset\<close> with the store, so
  that the accumulator can be observed.\<close>

fun restack_loop :: "item list \<Rightarrow> int \<Rightarrow> store \<Rightarrow> int \<times> store" where
  "restack_loop [] total_offset st = (total_offset, st)"
| "restack_loop (r # rs) total_offset st =
     (let extents = item_v_extents st r in
      if fst extents = 0 \<and> snd extents = 0 then restack_loop rs total_offset st
      else
        (let total1 = (if enabled (st (ptr_of r))
                       then add32 total_offset (neg32 (fst extents)) else total_offset);
             st1 = (if \<not> dragging (st (ptr_of r))
                    then set_layout_v_offset st (ptr_of r) total1 else st);
             total2 = (if enabled (st1 (ptr_of r))
                       then add32 total1 (snd extents) else total1)
         in restack_loop rs total2 st1))"

definition restack_items :: "item list \<Rightarrow> store \<Rightarrow> store" where
  "restack_items items st =
     snd (restack_loop (stable_sort (center_key st) (trace_tree_child_items items)) 0 st)"

subsection \<open>Tree persistence\<close>

text \<open>
  The part of a \<open>QSettings\<close> object this file touches, as a tree of sections: the value
  under the key \<open>"items"\<close> as \<open>toInt()\<close> reads it, the value under the key
  \<open>"trace"\<close> as \<open>toString()\<close> reads it (\<open>None\<close> when \<open>contains\<close> is false), and
  the nested sections.  The section that \<open>beginGroup(QString::number(i))\<close> opens is
  keyed by the number \<open>i\<close> itself.
\<close>

datatype settings =
  Settings (items_value: "int option") (trace_value: "string option")
           (sections: "(nat \<times> settings) list")

definition empty_settings :: settings where
  "empty_settings = Settings None None []"

text \<open>\<open>beginGroup\<close> on a section that does not exist opens an empty one.\<close>

definition beginGroup :: "settings \<Rightarrow> nat \<Rightarrow> settings" where
  "beginGroup s i = (case map_of (sections s) i of None \<Rightarrow> empty_settings | Some sub \<Rightarrow> sub)"

text \<open>\<open>endGroup\<close> after writing into the section opened at \<open>i\<close>.\<close>

fun put_section :: "nat \<Rightarrow> settings \<Rightarrow> (nat \<times> settings) list \<Rightarrow> (nat \<times> settings) list" where
  "put_section i sub [] = [(i, sub)]"
| "put_section i sub ((j, old) # rest) =
     (if j = i then (i, sub) # rest else (j, old) # put_section i sub rest)"

definition endGroup :: "settings \<Rightarrow> nat \<Rightarrow> settings \<Rightarrow> settings" where
  "endGroup s i sub = Settings (items_value s) (trace_value s) (put_section i sub (sections s))"

definition set_items_value :: "settings \<Rightarrow> int \<Rightarrow> settings" where
  "set_items_value s n = Settings (Some n) (trace_value s) (sections s)"

definition set_trace_value :: "settings \<Rightarrow> string \<Rightarrow> settings" where
  "set_trace_value s v = Settings (items_value s) (Some v) (sections s)"

text \<open>
  Modelled from the spec: the overrides of the virtual \<open>save_trace_tree\<close> of an item
  are not in this file; a leaf records its name under \<open>"trace"\<close>, a group saves its
  own children with \<open>TraceTreeItemOwner::save_trace_tree\<close>.  That function is
  \<open>save_loop\<close> followed by \<open>setValue("items", i)\<close>, from the source: it numbers the
  children from 0 and stores the count.
\<close>

fun save_item :: "store \<Rightarrow> item \<Rightarrow> settings \<Rightarrow> settings"
  and save_loop :: "store \<Rightarrow> item list \<Rightarrow> nat \<Rightarrow> settings \<Rightarrow> nat \<times> settings" where
  "save_item st (Trace p) s = set_trace_value s (name (st p))"
| "save_item st (TraceGroup p kids) s =
     (case save_loop st kids 0 s of (i, s') \<Rightarrow> set_items_value s' (int i))"
| "save_loop st [] i s = (i, s)"
| "save_loop st (child # rest) i s =
     save_loop st rest (Suc i) (endGroup s i (save_item st child (beginGroup s i)))"

definition save_trace_tree :: "store \<Rightarrow> item list \<Rightarrow> settings \<Rightarrow> settings" where
  "save_trace_tree st items s =
     (case save_loop st (trace_tree_child_items items) 0 s of
        (i, s') \<Rightarrow> set_items_value s' (int i))"

text \<open>\<open>settings.value("items").toInt()\<close>, which is 0 when the key is missing.\<close>

definition items_count :: "settings \<Rightarrow> int" where
  "items_count s = (case items_value s of None \<Rightarrow> 0 | Some n \<Rightarrow> n)"

text \<open>For the termination of the restore: an opened section that holds the key
  \<open>"items"\<close> is smaller than the section it lies in.\<close>

lemma size_beginGroup [termination_simp]:
  "items_value (beginGroup s i) \<noteq> None \<Longrightarrow> size (beginGroup s i) < size s"
proof (cases "map_of (sections s) i")
  case None
  moreover assume "items_value (beginGroup s i) \<noteq> None"
  ultimately show ?thesis by (simp add: beginGroup_def empty_settings_def)
next
  case (Some sub)
  then have "(i, sub) \<in> set (sections s)" by (rule map_of_SomeD)
  then have "size_prod (\<lambda>_. 0) size (i, sub) \<le> size_list (size_prod (\<lambda>_. 0) size) (sections s)"
    by (rule size_list_estimation') simp
  then have "size sub < size s" by (cases s) simp
  with Some show ?thesis by (simp add: beginGroup_def)
qed

lemma size_beginGroup_Some:
  "items_value (beginGroup s i) = Some y \<Longrightarrow> Suc (2 * size (beginGroup s i)) < 2 * size s"
  using size_beginGroup [of s i] by simp

text \<open>
  Modelled from the spec: the lookup table holds leaves (its value type is declared
  outside this file); \<open>restore_trace_tree\<close> of a leaf, which is not in this file, reads
  settings of the leaf only and leaves the tree and the fields modelled here alone;
  \<open>restore_trace_tree\<close> of the new group is the function of the owner; and the
  constructor of \<open>TraceGroup\<close>, not in this file either, makes an object without owner,
  whose other fields are those the store holds at its address.
  The rest is \<open>TraceTreeItemOwner::restore_trace_tree\<close> from the source, with the
  lookup table \<open>items\<close> called \<open>tab\<close>, and \<open>make_shared\<close> taking the next unused
  address \<open>fresh\<close>.
\<close>

function restore_trace_tree ::
    "ptr \<Rightarrow> item list \<Rightarrow> settings \<Rightarrow> (string \<rightharpoonup> ptr) \<Rightarrow> store \<Rightarrow> ptr
       \<Rightarrow> error + (item list \<times> store \<times> ptr)"
  and restore_loop ::
    "ptr \<Rightarrow> item list \<Rightarrow> settings \<Rightarrow> nat \<Rightarrow> (string \<rightharpoonup> ptr) \<Rightarrow> store \<Rightarrow> ptr
       \<Rightarrow> error + (item list \<times> store \<times> ptr)" where
  "restore_trace_tree this items s tab st fresh =
     (if items_value s = None then Inl AssertionFailed
      else (case restore_loop this items s 0 tab st fresh of
              Inl e \<Rightarrow> Inl e
            | Inr (items', st', fresh') \<Rightarrow> Inr (items', restack_items items' st', fresh')))"
| "restore_loop this items s i tab st fresh =
     (if \<not> int i < items_count s then Inr (items, st, fresh)
      else if items_value (beginGroup s i) \<noteq> None then
        (case restore_trace_tree fresh [] (beginGroup s i) tab (set_owner st fresh None) (Suc fresh) of
           Inl e \<Rightarrow> Inl e
         | Inr (kids, st1, fresh1) \<Rightarrow>
             if kids \<noteq> [] then
               (case add_child_item this items (TraceGroup fresh kids) st1 of
                  Inl e \<Rightarrow> Inl e
                | Inr (items1, st2) \<Rightarrow> restore_loop this items1 s (Suc i) tab st2 fresh1)
             else restore_loop this items s (Suc i) tab st1 fresh1)
      else if trace_value (beginGroup s i) \<noteq> None then
        (case tab (the (trace_value (beginGroup s i))) of
           None \<Rightarrow> restore_loop this items s (Suc i) tab st fresh
         | Some trace \<Rightarrow>
             (case add_child_item this items (Trace trace) st of
                Inl e \<Rightarrow> Inl e
              | Inr (items1, st1) \<Rightarrow> restore_loop this items1 s (Suc i) tab st1 fresh))
      else restore_loop this items s (Suc i) tab st fresh)"
  by pat_completeness auto
termination
  by (relation "inv_image (less_than <*lex*> less_than)
        (\<lambda>x. case x of
           Inl (this, items, s, tab, st, fresh) \<Rightarrow> (2 * size s + 1, 0)
         | Inr (this, items, s, i, tab, st, fresh) \<Rightarrow> (2 * size s, nat (items_count s) - i))")
     (auto dest!: size_beginGroup_Some)

declare restore_trace_tree.simps [simp del] restore_loop.simps [simp del]

subsection \<open>Notions used to state the properties\<close>

text \<open>The enabled children of an owner, and the extent of a child translated by its
  current offset (the two sums \<open>v_extents\<close> computes for it).\<close>

definition enabled_children :: "store \<Rightarrow> item list \<Rightarrow> item list" where
  "enabled_children st items = filter (\<lambda>t. enabled (st (ptr_of t))) items"

definition child_min :: "store \<Rightarrow> item \<Rightarrow> int" where
  "child_min st t = add32 (fst (item_v_extents st t)) (layout_v_offset (st (ptr_of t)))"

definition child_max :: "store \<Rightarrow> item \<Rightarrow> int" where
  "child_max st t = add32 (snd (item_v_extents st t)) (layout_v_offset (st (ptr_of t)))"

text \<open>The store after the back references of the objects at the addresses \<open>ps\<close>
  have been set to \<open>nullptr\<close>.\<close>

definition detach_all :: "ptr set \<Rightarrow> store \<Rightarrow> store" where
  "detach_all ps st = (\<lambda>p. if p \<in> ps then (st p)\<lparr>owner := None\<rparr> else st p)"

text \<open>The invariant of an owner: every listed item points back at it.\<close>

definition owned_by :: "ptr \<Rightarrow> item list \<Rightarrow> store \<Rightarrow> bool" where
  "owned_by this items st = (\<forall>t\<in>set items. owner (st (ptr_of t)) = Some this)"

text \<open>Concrete states used in the examples below.\<close>

definition default_attrs :: attrs where
  "default_attrs = \<lparr>owner = None, enabled = True, dragging = False, layout_v_offset = 0,
                     name = [], own_extents = (0, 0)\<rparr>"

definition c4_store :: store where
  "c4_store = (\<lambda>_. default_attrs)
     (1 := default_attrs\<lparr>owner := Some 0\<rparr>,
      2 := default_attrs\<lparr>owner := Some 1, own_extents := (-5, 5)\<rparr>)"

definition c8_store :: store where
  "c8_store = (\<lambda>_. default_attrs)(1 := default_attrs\<lparr>owner := Some 0\<rparr>)"

text \<open>What a restore may change of the back references: nothing at an address that was
  in use before and is not in the lookup table; and addresses are only ever taken,
  never given back.\<close>

definition owner_frame :: "(string \<rightharpoonup> ptr) \<Rightarrow> store \<Rightarrow> ptr \<Rightarrow> store \<Rightarrow> ptr \<Rightarrow> bool" where
  "owner_frame tab st fresh st' fresh' \<longleftrightarrow>
     fresh \<le> fresh' \<and> (\<forall>p. p < fresh \<and> p \<notin> ran tab \<longrightarrow> owner (st' p) = owner (st p))"

text \<open>What a restore may do to the list of children: append items that come from the
  lookup table or are new objects.\<close>

definition appended :: "(string \<rightharpoonup> ptr) \<Rightarrow> ptr \<Rightarrow> item list \<Rightarrow> item list \<Rightarrow> bool" where
  "appended tab fresh items items' \<longleftrightarrow>
     (\<exists>G. items' = items @ G \<and> (\<forall>t\<in>set G. ptr_of t \<in> ran tab \<or> fresh \<le> ptr_of t))"

definition c9_settings :: settings where
  "c9_settings = Settings (Some 2) None
     [(0, Settings (Some 0) None []),
      (1, Settings (Some 1) None [(0, Settings None (Some ''a'') [])])]"

definition c10_settings :: settings where
  "c10_settings = Settings (Some 2) None
     [(0, Settings None None []), (1, Settings None (Some ''a'') [])]"

text \<open>The addresses strictly below an item: those of the objects nested in it.\<close>

fun below :: "item \<Rightarrow> ptr list" where
  "below (Trace p) = []"
| "below (TraceGroup p kids) = ptrs_forest kids"

text \<open>One turn of the walk of \<open>restack_items\<close> for an item of non-zero extent: the
  offset the item is given, the accumulator after it, and the store after it.\<close>

definition placed :: "store \<Rightarrow> item \<Rightarrow> int \<Rightarrow> int" where
  "placed st r total_offset =
     (if enabled (st (ptr_of r)) then add32 total_offset (neg32 (fst (item_v_extents st r))) else total_offset)"

definition advance :: "store \<Rightarrow> item \<Rightarrow> int \<Rightarrow> int" where
  "advance st r total_offset =
     (if enabled (st (ptr_of r)) then add32 (placed st r total_offset) (snd (item_v_extents st r))
      else total_offset)"

definition place :: "store \<Rightarrow> item \<Rightarrow> int \<Rightarrow> store" where
  "place st r total_offset =
     (if dragging (st (ptr_of r)) then st
      else set_layout_v_offset st (ptr_of r) (placed st r total_offset))"

text \<open>The accumulator after the walk the spec describes over a list of items, from the
  accumulator \<open>t\<close>: an item of extent \<open>(0, 0)\<close> is passed over, any other advances
  the accumulator if it is enabled.  Extents and flags are those of the one state \<open>st\<close>,
  the state at the start of the call.\<close>

fun total_after :: "store \<Rightarrow> item list \<Rightarrow> int \<Rightarrow> int" where
  "total_after st [] t = t"
| "total_after st (r # rs) t =
     (if item_v_extents st r = (0, 0) then total_after st rs t
      else total_after st rs (advance st r t))"

text \<open>Two stores that agree everywhere but for the layout offsets at the addresses
  \<open>P\<close>.\<close>

definition offsets_differ :: "ptr set \<Rightarrow> store \<Rightarrow> store \<Rightarrow> bool" where
  "offsets_differ P st st' \<longleftrightarrow>
     (\<forall>p. (p \<notin> P \<longrightarrow> st' p = st p) \<and> st' p = (st p)\<lparr>layout_v_offset := layout_v_offset (st' p)\<rparr>)"

text \<open>Further concrete states for the examples.\<close>

definition c6_store :: store where
  "c6_store = (\<lambda>_. default_attrs)
     (1 := default_attrs\<lparr>own_extents := (-5, 5)\<rparr>,
      2 := default_attrs\<lparr>layout_v_offset := 7\<rparr>,
      3 := default_attrs\<lparr>layout_v_offset := 100, own_extents := (-5, 5)\<rparr>)"

definition c7_store :: store where
  "c7_store = (\<lambda>_. default_attrs)
     (1 := default_attrs\<lparr>own_extents := (-5, 5)\<rparr>,
      2 := default_attrs\<lparr>enabled := False, layout_v_offset := 50, own_extents := (-20, 20)\<rparr>,
      3 := default_attrs\<lparr>layout_v_offset := 100, own_extents := (-5, 5)\<rparr>)"

text \<open>The height of an item, the sum of the heights of a list of items, and the items
  the walk of \<open>restack_items\<close> stacks one below the other: enabled, not dragged, at
  least 2 high.\<close>

definition item_height :: "store \<Rightarrow> item \<Rightarrow> int" where
  "item_height st r = snd (item_v_extents st r) - fst (item_v_extents st r)"

definition height_sum :: "store \<Rightarrow> item list \<Rightarrow> int" where
  "height_sum st rs = sum_list (map (item_height st) rs)"

definition stackable :: "store \<Rightarrow> item \<Rightarrow> bool" where
  "stackable st r \<longleftrightarrow>
     enabled (st (ptr_of r)) \<and> \<not> dragging (st (ptr_of r)) \<and> 2 \<le> item_height st r"

text \<open>An extent with which no sum of the walk overflows, whatever the place of the item
  in the order, when the heights of all stacked items add up to \<open>H\<close>: \<open>-first\<close>,
  \<open>first + second\<close> and \<open>total_offset - first\<close>, which is \<open>H - second\<close> at most,
  are values of \<open>int\<close>.\<close>

definition fits :: "store \<Rightarrow> int \<Rightarrow> item \<Rightarrow> bool" where
  "fits st H r \<longleftrightarrow>
     - INT_MAX \<le> fst (item_v_extents st r)
     \<and> INT_MIN \<le> fst (item_v_extents st r) + snd (item_v_extents st r)
     \<and> fst (item_v_extents st r) + snd (item_v_extents st r) \<le> INT_MAX
     \<and> H - snd (item_v_extents st r) \<le> INT_MAX"

text \<open>The offsets the walk gives to the items of a list, the assignments
  \<open>set_layout_v_offset\<close> it makes, with zero extents and dragged items left out, and
  such assignments carried out on a store.\<close>

fun offsets_walk :: "store \<Rightarrow> item list \<Rightarrow> int \<Rightarrow> int list" where
  "offsets_walk st [] t = []"
| "offsets_walk st (r # rs) t = placed st r t # offsets_walk st rs (advance st r t)"

fun targets :: "store \<Rightarrow> item list \<Rightarrow> int \<Rightarrow> (ptr \<times> int) list" where
  "targets st [] t = []"
| "targets st (r # rs) t =
     (if item_v_extents st r = (0, 0) then targets st rs t
      else (if dragging (st (ptr_of r)) then [] else [(ptr_of r, placed st r t)])
           @ targets st rs (advance st r t))"

definition assign :: "(ptr \<times> int) list \<Rightarrow> store \<Rightarrow> store" where
  "assign as st = fold (\<lambda>pv s. set_layout_v_offset s (fst pv) (snd pv)) as st"

definition nonzero_children :: "store \<Rightarrow> item list \<Rightarrow> item list" where
  "nonzero_children st items = filter (\<lambda>r. item_v_extents st r \<noteq> (0, 0)) items"

text \<open>Three owners of two leaves each, at the addresses 1 and 2: one leaf is being
  dragged; one leaf is disabled; the leaves are one unit high.  And an owner of two
  leaves seven units high, one with an extent below 0 and one above, and an empty
  group.\<close>

definition c1_dragged :: store where
  "c1_dragged = (\<lambda>_. default_attrs)
     (1 := default_attrs\<lparr>dragging := True, layout_v_offset := 1000, own_extents := (-10, 10)\<rparr>,
      2 := default_attrs\<lparr>layout_v_offset := 2000, own_extents := (-10, 10)\<rparr>)"

definition c1_disabled :: store where
  "c1_disabled = (\<lambda>_. default_attrs)
     (1 := default_attrs\<lparr>own_extents := (-10, 10)\<rparr>,
      2 := default_attrs\<lparr>enabled := False, layout_v_offset := 1000, own_extents := (-1000, 0)\<rparr>)"

definition c1_stacked :: store where
  "c1_stacked = (\<lambda>_. default_attrs)
     (1 := default_attrs\<lparr>layout_v_offset := 40, own_extents := (3, 10)\<rparr>,
      3 := default_attrs\<lparr>own_extents := (-9, -2)\<rparr>)"

definition c1_thin :: store where
  "c1_thin = (\<lambda>_. default_attrs)
     (1 := default_attrs\<lparr>layout_v_offset := 100, own_extents := (0, 1)\<rparr>,
      2 := default_attrs\<lparr>own_extents := (-1, 0)\<rparr>)"

text \<open>The sort key of an item whose offset is \<open>v\<close>.\<close>

definition key_at :: "store \<Rightarrow> item \<Rightarrow> int \<Rightarrow> int" where
  "key_at st r v =
     add32 v (half32 (add32 (fst (item_v_extents st r)) (snd (item_v_extents st r))))"

text \<open>The shape of a tree: its nesting and its leaves, without the addresses of the
  groups (a restored group is a new object).\<close>

datatype shape = Leaf ptr | Group "shape list"

fun shape_of :: "item \<Rightarrow> shape" where
  "shape_of (Trace p) = Leaf p"
| "shape_of (TraceGroup g kids) = Group (map shape_of kids)"

text \<open>What a restore is expected to rebuild from a saved tree, given the lookup table: a
  leaf whose name the table does not hold is left out, and so is a group left without
  children.  \<open>found_item\<close> lists the leaves the table yields, in order.\<close>

fun restored_item :: "(string \<rightharpoonup> ptr) \<Rightarrow> store \<Rightarrow> item \<Rightarrow> shape list"
  and restored_forest :: "(string \<rightharpoonup> ptr) \<Rightarrow> store \<Rightarrow> item list \<Rightarrow> shape list" where
  "restored_item tab st (Trace p) =
     (case tab (name (st p)) of None \<Rightarrow> [] | Some q \<Rightarrow> [Leaf q])"
| "restored_item tab st (TraceGroup g kids) =
     (if restored_forest tab st kids = [] then [] else [Group (restored_forest tab st kids)])"
| "restored_forest tab st [] = []"
| "restored_forest tab st (t # ts) = restored_item tab st t @ restored_forest tab st ts"

fun found_item :: "(string \<rightharpoonup> ptr) \<Rightarrow> store \<Rightarrow> item \<Rightarrow> ptr list"
  and found_forest :: "(string \<rightharpoonup> ptr) \<Rightarrow> store \<Rightarrow> item list \<Rightarrow> ptr list" where
  "found_item tab st (Trace p) = (case tab (name (st p)) of None \<Rightarrow> [] | Some q \<Rightarrow> [q])"
| "found_item tab st (TraceGroup g kids) = found_forest tab st kids"
| "found_forest tab st [] = []"
| "found_forest tab st (t # ts) = found_item tab st t @ found_forest tab st ts"

text \<open>A tree without empty groups, and a table that maps the name of every leaf of a tree
  to that leaf.\<close>

fun no_empty_group :: "item \<Rightarrow> bool" where
  "no_empty_group (Trace p) = True"
| "no_empty_group (TraceGroup g kids) = (kids \<noteq> [] \<and> (\<forall>k\<in>set kids. no_empty_group k))"

definition names_all :: "(string \<rightharpoonup> ptr) \<Rightarrow> store \<Rightarrow> item list \<Rightarrow> bool" where
  "names_all tab st items =
     (\<forall>t\<in>set (trace_tree_leaf_items items). tab (name (st (ptr_of t))) = Some (ptr_of t))"

text \<open>A table that maps the name of a leaf of a tree, if it holds that name, to that leaf;
  the leaves whose names the table holds; and the saved tree without the other leaves and
  without the groups this leaves without children.\<close>

definition names_own :: "(string \<rightharpoonup> ptr) \<Rightarrow> store \<Rightarrow> item list \<Rightarrow> bool" where
  "names_own tab st items =
     (\<forall>t\<in>set (trace_tree_leaf_items items).
        tab (name (st (ptr_of t))) = None \<or> tab (name (st (ptr_of t))) = Some (ptr_of t))"

definition named_leaves :: "(string \<rightharpoonup> ptr) \<Rightarrow> store \<Rightarrow> item list \<Rightarrow> item list" where
  "named_leaves tab st items =
     filter (\<lambda>t. tab (name (st (ptr_of t))) \<noteq> None) (trace_tree_leaf_items items)"

fun pruned_item :: "(string \<rightharpoonup> ptr) \<Rightarrow> store \<Rightarrow> item \<Rightarrow> shape list"
  and pruned_forest :: "(string \<rightharpoonup> ptr) \<Rightarrow> store \<Rightarrow> item list \<Rightarrow> shape list" where
  "pruned_item tab st (Trace p) = (if tab (name (st p)) = None then [] else [Leaf p])"
| "pruned_item tab st (TraceGroup g kids) =
     (if pruned_forest tab st kids = [] then [] else [Group (pruned_forest tab st kids)])"
| "pruned_forest tab st [] = []"
| "pruned_forest tab st (t # ts) = pruned_item tab st t @ pruned_forest tab st ts"

text \<open>The leaves of a shape, in order.\<close>

fun shape_leaves :: "shape \<Rightarrow> ptr list" where
  "shape_leaves (Leaf p) = [p]"
| "shape_leaves (Group ks) = concat (map shape_leaves ks)"

text \<open>A section that holds the saved children \<open>kids\<close>.\<close>

definition holds_children :: "store \<Rightarrow> settings \<Rightarrow> item list \<Rightarrow> bool" where
  "holds_children st s kids \<longleftrightarrow>
     items_value s = Some (int (length kids))
     \<and> (\<forall>j<length kids. beginGroup s j = save_item st (kids ! j) empty_settings)"

text \<open>What the restore of one section may change of the back references below the next
  unused address: those of the leaves \<open>F\<close> it attaches, and no other.\<close>

definition restore_frame :: "ptr set \<Rightarrow> store \<Rightarrow> ptr \<Rightarrow> store \<Rightarrow> ptr \<Rightarrow> bool" where
  "restore_frame F st fresh st' fresh' \<longleftrightarrow>
     fresh \<le> fresh' \<and> (\<forall>q. q < fresh \<and> q \<notin> F \<longrightarrow> owner (st' q) = owner (st q))"

text \<open>An owner at address 0 with an empty group and a leaf named \<open>a\<close>, and a store
  with two unowned leaves named \<open>a\<close> and \<open>b\<close>.\<close>

definition c2_store :: store where
  "c2_store = (\<lambda>_. default_attrs)
     (1 := default_attrs\<lparr>owner := Some 0\<rparr>,
      2 := default_attrs\<lparr>owner := Some 0, name := ''a'', own_extents := (-5, 5)\<rparr>)"

definition c2_settings :: settings where
  "c2_settings = Settings (Some 2) None
     [(0, Settings (Some 0) None []), (1, Settings None (Some ''a'') [])]"

definition c2_leaves :: store where
  "c2_leaves = (\<lambda>_. default_attrs)
     (2 := default_attrs\<lparr>name := ''a'', own_extents := (-5, 5)\<rparr>,
      3 := default_attrs\<lparr>name := ''b'', own_extents := (-5, 5)\<rparr>)"

section \<open>Properties\<close>

subsection \<open>Vertical extents\<close>

lemma int32_range: "INT_MIN \<le> int32 x \<and> int32 x \<le> INT_MAX"
proof -
  have "0 \<le> (x + 2147483648) mod 4294967296" by simp
  moreover have "(x + 2147483648) mod 4294967296 < 4294967296" by simp
  ultimately show ?thesis by (simp add: int32_def INT_MIN_def INT_MAX_def)
qed

lemma add32_range: "INT_MIN \<le> add32 a b" "add32 a b \<le> INT_MAX"
  using int32_range [of "a + b"] by (simp_all add: add32_def)

lemma v_extents_loop_eq:
  "v_extents_loop st ts (h, lo, hi) =
     (h \<or> enabled_children st ts \<noteq> [],
      Min (insert lo (child_min st ` set (enabled_children st ts))),
      Max (insert hi (child_max st ` set (enabled_children st ts))))"
proof (induction ts arbitrary: h lo hi)
  case Nil
  show ?case by (simp add: enabled_children_def)
next
  case (Cons t ts)
  show ?case
  proof (cases "enabled (st (ptr_of t))")
    case False
    then show ?thesis using Cons.IH [of h lo hi] by (simp add: enabled_children_def)
  next
    case True
    let ?S = "child_min st ` set (enabled_children st ts)"
    let ?T = "child_max st ` set (enabled_children st ts)"
    have fin: "finite ?S" "finite ?T" by simp_all
    have lo: "Min (insert (min (child_min st t) lo) ?S) = Min (insert lo (insert (child_min st t) ?S))"
      using fin(1) by (cases "?S = {}") (simp_all add: min.commute min.left_commute)
    have hi: "Max (insert (max (child_max st t) hi) ?T) = Max (insert hi (insert (child_max st t) ?T))"
      using fin(2) by (cases "?T = {}") (simp_all add: max.commute max.left_commute)
    have en: "enabled_children st (t # ts) = t # enabled_children st ts"
      using True by (simp add: enabled_children_def)
    have "v_extents_loop st (t # ts) (h, lo, hi) =
            v_extents_loop st ts (True, min (child_min st t) lo, max (child_max st t) hi)"
      using True by (simp add: child_min_def child_max_def Let_def)
    also have "\<dots> = (True, Min (insert (min (child_min st t) lo) ?S),
                           Max (insert (max (child_max st t) hi) ?T))"
      by (simp add: Cons.IH)
    finally show ?thesis by (simp add: en lo hi)
  qed
qed

text \<open>
  C3: \<open>v_extents()\<close> is \<open>(0, 0)\<close> when the owner has no enabled child (no children,
  or all of them disabled); otherwise it is the minimum over the enabled children of
  \<open>child_extents.first + child_offset\<close> paired with the maximum over the enabled
  children of \<open>child_extents.second + child_offset\<close>.  Disabled children do not occur
  in either.
\<close>

theorem v_extents_spec:
  "v_extents st items =
     (if enabled_children st items = [] then (0, 0)
      else (Min (child_min st ` set (enabled_children st items)),
            Max (child_max st ` set (enabled_children st items))))"
proof (cases "enabled_children st items = []")
  case True
  then show ?thesis
    by (simp add: v_extents_def trace_tree_child_items_def v_extents_loop_eq)
next
  case False
  let ?S = "child_min st ` set (enabled_children st items)"
  let ?T = "child_max st ` set (enabled_children st items)"
  have ne: "?S \<noteq> {}" "?T \<noteq> {}" using False by simp_all
  have "\<forall>x\<in>?S. x \<le> INT_MAX" by (auto simp: child_min_def add32_range)
  then have "Min ?S \<le> INT_MAX" using ne(1) by (meson Min_in finite_imageI finite_set)
  then have lo: "Min (insert INT_MAX ?S) = Min ?S"
    using ne(1) by (metis Min_insert finite_imageI finite_set min.absorb2)
  have "\<forall>x\<in>?T. INT_MIN \<le> x" by (auto simp: child_max_def add32_range)
  then have "INT_MIN \<le> Max ?T" using ne(2) by (meson Max_in finite_imageI finite_set)
  then have hi: "Max (insert INT_MIN ?T) = Max ?T"
    using ne(2) by (metis Max_insert finite_imageI finite_set max.absorb2)
  show ?thesis using False
    by (simp add: v_extents_def trace_tree_child_items_def v_extents_loop_eq lo hi)
qed

text \<open>A group answers \<open>v_extents()\<close> with the aggregate of its own children.\<close>

lemma item_v_extents_group: "item_v_extents st (TraceGroup p kids) = v_extents st kids"
  by (simp add: v_extents_def trace_tree_child_items_def)

subsection \<open>Child-list operations\<close>

lemma clear_loop_eq:
  "clear_loop this items st =
     (if distinct (map ptr_of items) \<and> owned_by this items st
      then Inr (detach_all (ptr_of ` set items) st) else Inl AssertionFailed)"
proof (induction items arbitrary: st)
  case Nil
  show ?case by (simp add: detach_all_def owned_by_def)
next
  case (Cons t ts)
  show ?case
  proof (cases "owner (st (ptr_of t)) = Some this")
    case False
    then show ?thesis by (simp add: owned_by_def)
  next
    case True
    let ?st = "set_owner st (ptr_of t) None"
    have own: "owned_by this ts ?st \<longleftrightarrow> ptr_of t \<notin> ptr_of ` set ts \<and> owned_by this ts st"
      by (auto simp: owned_by_def set_owner_def intro: rev_image_eqI)
    have det: "detach_all (ptr_of ` set ts) ?st = detach_all (ptr_of ` set (t # ts)) st"
      by (auto simp: detach_all_def set_owner_def fun_eq_iff)
    have "clear_loop this (t # ts) st = clear_loop this ts ?st" using True by simp
    also have "\<dots> = (if distinct (map ptr_of ts) \<and> owned_by this ts ?st
      then Inr (detach_all (ptr_of ` set ts) ?st) else Inl AssertionFailed)" by (rule Cons.IH)
    finally show ?thesis using True unfolding own det by (auto simp: owned_by_def)
  qed
qed

text \<open>
  C4, as amended: \<open>clear_child_items\<close> checks that every direct child points back at
  this owner (and aborts otherwise, also when a child is listed twice), sets the back
  reference of every direct child to \<open>nullptr\<close>, leaves every other object as it was,
  items nested inside child groups included, and empties the list.
\<close>

theorem clear_child_items_direct:
  "clear_child_items this items st =
     (if distinct (map ptr_of items) \<and> owned_by this items st
      then Inr ([], detach_all (ptr_of ` set items) st) else Inl AssertionFailed)"
  by (simp add: clear_child_items_def trace_tree_child_items_def clear_loop_eq)

theorem clear_child_items_direct_witness:
  "clear_child_items 0 [TraceGroup 1 [Trace 2]] c4_store =
     Inr ([], detach_all {1} c4_store)"
  using clear_child_items_direct [of 0 "[TraceGroup 1 [Trace 2]]" c4_store]
  by (simp add: owned_by_def c4_store_def)

text \<open>
  C4 as stated fails: the leaf at address 2 is nested inside the child group at address 1;
  it is among the recursively flattened items of owner 0, its owner is the group and not
  owner 0, and after \<open>clear_child_items\<close> it still points at the group.
\<close>

theorem clear_child_items_nested_counterexample:
  "clear_child_items 0 [TraceGroup 1 [Trace 2]] c4_store = Inr ([], set_owner c4_store 1 None)
   \<and> 2 \<in> set (ptrs_forest [TraceGroup 1 [Trace 2]])
   \<and> Trace 2 \<in> set (trace_tree_leaf_items [TraceGroup 1 [Trace 2]])
   \<and> owner (c4_store 2) \<noteq> Some 0
   \<and> owner (set_owner c4_store 1 None 2) = Some 1"
  by (simp add: clear_child_items_def trace_tree_child_items_def c4_store_def set_owner_def)

lemma erase_first_subset: "erase_first p ts = Some ts' \<Longrightarrow> set ts' \<subseteq> set ts"
  by (induction ts arbitrary: ts') (auto split: if_splits option.splits)

lemma erase_first_distinct:
  "p \<in> ptr_of ` set ts \<Longrightarrow> distinct (map ptr_of ts) \<Longrightarrow>
     \<exists>ts'. erase_first p ts = Some ts' \<and> p \<notin> ptr_of ` set ts'"
proof (induction ts)
  case Nil
  then show ?case by simp
next
  case (Cons t ts)
  show ?case
  proof (cases "ptr_of t = p")
    case True
    with Cons.prems show ?thesis by simp
  next
    case False
    with Cons.prems have "p \<in> ptr_of ` set ts" "distinct (map ptr_of ts)" by auto
    from Cons.IH [OF this] obtain ts' where "erase_first p ts = Some ts'" "p \<notin> ptr_of ` set ts'"
      by blast
    with False show ?thesis by simp
  qed
qed

text \<open>
  C8: when \<open>x\<close> has no owner and the owner's invariant holds, \<open>add_child_item(x)\<close>
  returns, \<open>x\<close> occurs exactly once in the list and points back at this owner.  When
  \<open>y\<close> points back at this owner and is listed (the list of a tree holds no item
  twice), \<open>remove_child_item(y)\<close> returns, \<open>y\<close> is no longer listed and its owner is
  \<open>nullptr\<close>.
\<close>

theorem add_remove_child_item:
  "(owner (st (ptr_of x)) = None \<and> owned_by this items st \<longrightarrow>
      (\<exists>items' st'. add_child_item this items x st = Inr (items', st')
         \<and> count_list (map ptr_of items') (ptr_of x) = 1
         \<and> owner (st' (ptr_of x)) = Some this))
   \<and> (owner (st (ptr_of y)) = Some this \<and> ptr_of y \<in> ptr_of ` set items
        \<and> distinct (map ptr_of items) \<longrightarrow>
      (\<exists>items' st'. remove_child_item this items y st = Inr (items', st')
         \<and> ptr_of y \<notin> ptr_of ` set items'
         \<and> owner (st' (ptr_of y)) = None))"
proof (intro conjI impI)
  assume a: "owner (st (ptr_of x)) = None \<and> owned_by this items st"
  then have "ptr_of x \<notin> set (map ptr_of items)" by (auto simp: owned_by_def)
  then have "count_list (map ptr_of items) (ptr_of x) = 0" by (simp add: count_list_0_iff)
  with a show "\<exists>items' st'. add_child_item this items x st = Inr (items', st')
         \<and> count_list (map ptr_of items') (ptr_of x) = 1
         \<and> owner (st' (ptr_of x)) = Some this"
    by (simp add: add_child_item_def set_owner_def)
next
  assume b: "owner (st (ptr_of y)) = Some this \<and> ptr_of y \<in> ptr_of ` set items
        \<and> distinct (map ptr_of items)"
  from erase_first_distinct [of "ptr_of y" items] b obtain ts' where
    "erase_first (ptr_of y) items = Some ts'" "ptr_of y \<notin> ptr_of ` set ts'" by blast
  with b show "\<exists>items' st'. remove_child_item this items y st = Inr (items', st')
         \<and> ptr_of y \<notin> ptr_of ` set items'
         \<and> owner (st' (ptr_of y)) = None"
    by (simp add: remove_child_item_def set_owner_def)
qed

theorem add_remove_child_item_witness:
  "(\<exists>items' st'. add_child_item 0 [Trace 1] (Trace 2) c8_store = Inr (items', st')
         \<and> count_list (map ptr_of items') 2 = 1 \<and> owner (st' 2) = Some 0)
   \<and> (\<exists>items' st'. remove_child_item 0 [Trace 1] (Trace 1) c8_store = Inr (items', st')
         \<and> 1 \<notin> ptr_of ` set items' \<and> owner (st' 1) = None)"
  using add_remove_child_item [of c8_store "Trace 2" 0 "[Trace 1]" "Trace 1"]
  by (simp add: owned_by_def c8_store_def default_attrs_def)

subsection \<open>Restoring a tree\<close>

lemma restack_loop_owner: "owner (snd (restack_loop rs t st) p) = owner (st p)"
  by (induction rs arbitrary: t st) (simp_all add: Let_def set_layout_v_offset_def)

lemma restack_items_owner: "owner (restack_items items st p) = owner (st p)"
  by (simp add: restack_items_def restack_loop_owner)

lemma owner_frame_refl: "owner_frame tab st fresh st fresh"
  by (simp add: owner_frame_def)

lemma owner_frame_trans:
  "owner_frame tab st fresh st1 fresh1 \<Longrightarrow> owner_frame tab st1 fresh1 st2 fresh2 \<Longrightarrow>
   owner_frame tab st fresh st2 fresh2"
  by (auto simp: owner_frame_def)

lemma restore_owner_frame:
  "restore_trace_tree this items s tab st fresh = Inr (items', st', fresh') \<Longrightarrow>
     owner_frame tab st fresh st' fresh'"
  "restore_loop this items s i tab st fresh = Inr (items', st', fresh') \<Longrightarrow>
     owner_frame tab st fresh st' fresh'"
proof (induction this items s tab st fresh and this items s i tab st fresh
       arbitrary: items' st' fresh' and items' st' fresh'
       rule: restore_trace_tree_restore_loop.induct)
  case (1 this items s tab st fresh)
  from "1.prems" have iv: "items_value s \<noteq> None"
    by (subst (asm) restore_trace_tree.simps) (simp split: if_splits)
  from "1.prems" iv obtain st0 where
    loop: "restore_loop this items s 0 tab st fresh = Inr (items', st0, fresh')"
    and st': "st' = restack_items items' st0"
    by (subst (asm) restore_trace_tree.simps) (auto split: sum.splits)
  from "1.IH" [OF iv loop] show ?case
    by (simp add: st' owner_frame_def restack_items_owner)
next
  case (2 this items s i tab st fresh)
  note run = "2.prems" [unfolded restore_loop.simps [of this items s i tab st fresh]]
  show ?case
  proof (cases "int i < items_count s")
    case False
    with run show ?thesis by (simp add: owner_frame_refl)
  next
    case lt: True
    show ?thesis
    proof (cases "items_value (beginGroup s i) \<noteq> None")
      case grp: True
      from run lt grp obtain kids st1 fresh1 where
        rec: "restore_trace_tree fresh [] (beginGroup s i) tab (set_owner st fresh None) (Suc fresh)
                = Inr (kids, st1, fresh1)"
        by (auto split: sum.splits)
      from "2.IH"(1) [OF _ grp rec] lt
      have "owner_frame tab (set_owner st fresh None) (Suc fresh) st1 fresh1" by simp
      then have f1: "owner_frame tab st fresh st1 fresh1"
        by (auto simp: owner_frame_def set_owner_def)
      show ?thesis
      proof (cases "kids = []")
        case True
        with run lt grp rec
        have "restore_loop this items s (Suc i) tab st1 fresh1 = Inr (items', st', fresh')"
          by simp
        from "2.IH"(3) [OF _ grp rec refl refl _ this] lt True
        have "owner_frame tab st1 fresh1 st' fresh'" by simp
        with f1 show ?thesis by (rule owner_frame_trans)
      next
        case False
        with run lt grp rec obtain items1 st2 where
          add: "add_child_item this items (TraceGroup fresh kids) st1 = Inr (items1, st2)"
          and nxt: "restore_loop this items1 s (Suc i) tab st2 fresh1 = Inr (items', st', fresh')"
          by (auto split: sum.splits)
        from add have st2: "st2 = set_owner st1 fresh (Some this)"
          by (auto simp: add_child_item_def split: if_splits)
        from "2.IH"(2) [OF _ grp rec refl refl False add refl nxt] lt
        have "owner_frame tab st2 fresh1 st' fresh'" by simp
        with f1 show ?thesis by (auto simp: owner_frame_def st2 set_owner_def)
      qed
    next
      case nogrp: False
      show ?thesis
      proof (cases "trace_value (beginGroup s i) \<noteq> None")
        case tr: True
        show ?thesis
        proof (cases "tab (the (trace_value (beginGroup s i)))")
          case None
          with run lt nogrp tr
          have "restore_loop this items s (Suc i) tab st fresh = Inr (items', st', fresh')"
            by simp
          from "2.IH"(4) [OF _ nogrp tr None this] lt show ?thesis by simp
        next
          case (Some q)
          with run lt nogrp tr obtain items1 st1 where
            add: "add_child_item this items (Trace q) st = Inr (items1, st1)"
            and nxt: "restore_loop this items1 s (Suc i) tab st1 fresh = Inr (items', st', fresh')"
            by (auto split: sum.splits)
          from add have st1: "st1 = set_owner st q (Some this)"
            by (auto simp: add_child_item_def split: if_splits)
          from Some have "q \<in> ran tab" by (auto simp: ran_def)
          moreover from "2.IH"(5) [OF _ nogrp tr Some add refl nxt] lt
          have "owner_frame tab st1 fresh st' fresh'" by simp
          ultimately show ?thesis by (auto simp: owner_frame_def st1 set_owner_def)
        qed
      next
        case False
        with run lt nogrp
        have "restore_loop this items s (Suc i) tab st fresh = Inr (items', st', fresh')"
          by simp
        from "2.IH"(6) [OF _ nogrp False this] lt show ?thesis by simp
      qed
    qed
  qed
qed


lemma appended_refl: "appended tab fresh items items"
  by (simp add: appended_def)

lemma appended_step:
  assumes "ptr_of x \<in> ran tab \<or> fresh \<le> ptr_of x"
    and "appended tab fresh1 (items @ [x]) items'" and "fresh \<le> fresh1"
  shows "appended tab fresh items items'"
proof -
  from assms(2) obtain G where G: "items' = (items @ [x]) @ G"
    "\<forall>t\<in>set G. ptr_of t \<in> ran tab \<or> fresh1 \<le> ptr_of t" unfolding appended_def by blast
  have "items' = items @ (x # G)" using G(1) by simp
  moreover have "\<forall>t\<in>set (x # G). ptr_of t \<in> ran tab \<or> fresh \<le> ptr_of t"
    using G(2) assms(1,3) by auto
  ultimately show ?thesis unfolding appended_def by blast
qed

lemma appended_mono:
  assumes "appended tab fresh1 items items'" and "fresh \<le> fresh1"
  shows "appended tab fresh items items'"
proof -
  from assms(1) obtain G where G: "items' = items @ G"
    "\<forall>t\<in>set G. ptr_of t \<in> ran tab \<or> fresh1 \<le> ptr_of t" unfolding appended_def by blast
  from G(2) assms(2) have "\<forall>t\<in>set G. ptr_of t \<in> ran tab \<or> fresh \<le> ptr_of t" by auto
  with G(1) show ?thesis unfolding appended_def by blast
qed

lemma restore_appends:
  "restore_trace_tree this items s tab st fresh = Inr (items', st', fresh') \<Longrightarrow>
     appended tab fresh items items'"
  "restore_loop this items s i tab st fresh = Inr (items', st', fresh') \<Longrightarrow>
     appended tab fresh items items'"
proof (induction this items s tab st fresh and this items s i tab st fresh
       arbitrary: items' st' fresh' and items' st' fresh'
       rule: restore_trace_tree_restore_loop.induct)
  case (1 this items s tab st fresh)
  from "1.prems" have iv: "items_value s \<noteq> None"
    by (subst (asm) restore_trace_tree.simps) (simp split: if_splits)
  from "1.prems" iv obtain st0 where
    loop: "restore_loop this items s 0 tab st fresh = Inr (items', st0, fresh')"
    by (subst (asm) restore_trace_tree.simps) (auto split: sum.splits)
  from "1.IH" [OF iv loop] show ?case .
next
  case (2 this items s i tab st fresh)
  note run = "2.prems" [unfolded restore_loop.simps [of this items s i tab st fresh]]
  show ?case
  proof (cases "int i < items_count s")
    case False
    with run show ?thesis by (simp add: appended_refl)
  next
    case lt: True
    show ?thesis
    proof (cases "items_value (beginGroup s i) \<noteq> None")
      case grp: True
      from run lt grp obtain kids st1 fresh1 where
        rec: "restore_trace_tree fresh [] (beginGroup s i) tab (set_owner st fresh None) (Suc fresh)
                = Inr (kids, st1, fresh1)"
        by (auto split: sum.splits)
      from restore_owner_frame(1) [OF rec] have le: "fresh \<le> fresh1"
        by (simp add: owner_frame_def)
      show ?thesis
      proof (cases "kids = []")
        case True
        with run lt grp rec
        have "restore_loop this items s (Suc i) tab st1 fresh1 = Inr (items', st', fresh')"
          by simp
        from "2.IH"(3) [OF _ grp rec refl refl _ this] lt True
        have "appended tab fresh1 items items'" by simp
        then show ?thesis using le by (rule appended_mono)
      next
        case False
        with run lt grp rec obtain items1 st2 where
          add: "add_child_item this items (TraceGroup fresh kids) st1 = Inr (items1, st2)"
          and nxt: "restore_loop this items1 s (Suc i) tab st2 fresh1 = Inr (items', st', fresh')"
          by (auto split: sum.splits)
        from add have i1: "items1 = items @ [TraceGroup fresh kids]"
          by (auto simp: add_child_item_def split: if_splits)
        from "2.IH"(2) [OF _ grp rec refl refl False add refl nxt] lt
        have "appended tab fresh1 (items @ [TraceGroup fresh kids]) items'" by (simp add: i1)
        from _ this le show ?thesis by (rule appended_step [of "TraceGroup fresh kids"]) simp
      qed
    next
      case nogrp: False
      show ?thesis
      proof (cases "trace_value (beginGroup s i) \<noteq> None")
        case tr: True
        show ?thesis
        proof (cases "tab (the (trace_value (beginGroup s i)))")
          case None
          with run lt nogrp tr
          have "restore_loop this items s (Suc i) tab st fresh = Inr (items', st', fresh')"
            by simp
          from "2.IH"(4) [OF _ nogrp tr None this] lt show ?thesis by simp
        next
          case (Some q)
          with run lt nogrp tr obtain items1 st1 where
            add: "add_child_item this items (Trace q) st = Inr (items1, st1)"
            and nxt: "restore_loop this items1 s (Suc i) tab st1 fresh = Inr (items', st', fresh')"
            by (auto split: sum.splits)
          from add have i1: "items1 = items @ [Trace q]"
            by (auto simp: add_child_item_def split: if_splits)
          from Some have q: "q \<in> ran tab" by (auto simp: ran_def)
          from "2.IH"(5) [OF _ nogrp tr Some add refl nxt] lt
          have "appended tab fresh (items @ [Trace q]) items'" by (simp add: i1)
          from _ this order_refl show ?thesis by (rule appended_step [of "Trace q"]) (simp add: q)
        qed
      next
        case False
        with run lt nogrp
        have "restore_loop this items s (Suc i) tab st fresh = Inr (items', st', fresh')"
          by simp
        from "2.IH"(6) [OF _ nogrp False this] lt show ?thesis by simp
      qed
    qed
  qed
qed

text \<open>
  C9: a numbered section that contains the key \<open>"items"\<close> is restored into a new group
  (a new address, not one the lookup table holds; no owner, no children).  When that
  restore returns with the children \<open>kids\<close>, the loop goes on with the next section,
  with the group appended and pointing back at this owner if \<open>kids\<close> is not empty, and
  with the children left as they were otherwise: the section raises no error.  So in
  what \<open>restore_trace_tree\<close> returns in the end, the group stands right after the
  children there were before and is owned by this owner if it received a child; and if
  it received none, no item appended is that group, and it has no owner.
\<close>

theorem restore_group_section:
  assumes "int i < items_count s" and "items_value (beginGroup s i) \<noteq> None"
    and "fresh \<notin> ran tab"
    and "restore_trace_tree fresh [] (beginGroup s i) tab (set_owner st fresh None) (Suc fresh)
           = Inr (kids, st1, fresh1)"
  shows "restore_loop this items s i tab st fresh =
           (if kids = [] then restore_loop this items s (Suc i) tab st1 fresh1
            else restore_loop this (items @ [TraceGroup fresh kids]) s (Suc i) tab
                   (set_owner st1 fresh (Some this)) fresh1)
       \<and> (\<forall>items' st' fresh'.
            restore_loop this items s i tab st fresh = Inr (items', st', fresh') \<longrightarrow>
              (if kids = []
               then (\<exists>rest. items' = items @ rest \<and> fresh \<notin> ptr_of ` set rest)
                    \<and> owner (st' fresh) = None
               else (\<exists>rest. items' = items @ TraceGroup fresh kids # rest)
                    \<and> owner (st' fresh) = Some this))"
proof (intro conjI allI impI)
  from restore_owner_frame(1) [OF assms(4)] assms(3)
  have o1: "owner (st1 fresh) = owner (set_owner st fresh None fresh)" and lt: "fresh < fresh1"
    by (simp_all add: owner_frame_def)
  from o1 have none: "owner (st1 fresh) = None" by (simp add: set_owner_def)
  then have "add_child_item this items (TraceGroup fresh kids) st1 =
               Inr (items @ [TraceGroup fresh kids], set_owner st1 fresh (Some this))"
    by (simp add: add_child_item_def)
  with assms show step: "restore_loop this items s i tab st fresh =
           (if kids = [] then restore_loop this items s (Suc i) tab st1 fresh1
            else restore_loop this (items @ [TraceGroup fresh kids]) s (Suc i) tab
                   (set_owner st1 fresh (Some this)) fresh1)"
    by (subst restore_loop.simps) simp
  fix items' st' fresh'
  assume all: "restore_loop this items s i tab st fresh = Inr (items', st', fresh')"
  show "if kids = []
        then (\<exists>rest. items' = items @ rest \<and> fresh \<notin> ptr_of ` set rest)
             \<and> owner (st' fresh) = None
        else (\<exists>rest. items' = items @ TraceGroup fresh kids # rest)
             \<and> owner (st' fresh) = Some this"
  proof (cases "kids = []")
    case True
    with step all have nxt: "restore_loop this items s (Suc i) tab st1 fresh1 = Inr (items', st', fresh')"
      by simp
    from restore_appends(2) [OF nxt] obtain rest where
      rest: "items' = items @ rest" "\<forall>t\<in>set rest. ptr_of t \<in> ran tab \<or> fresh1 \<le> ptr_of t"
      unfolding appended_def by blast
    from rest(2) lt assms(3) have "fresh \<notin> ptr_of ` set rest" by fastforce
    moreover from restore_owner_frame(2) [OF nxt] lt assms(3) none
    have "owner (st' fresh) = None" by (simp add: owner_frame_def)
    ultimately show ?thesis using True rest(1) by auto
  next
    case False
    with step all have nxt: "restore_loop this (items @ [TraceGroup fresh kids]) s (Suc i) tab
        (set_owner st1 fresh (Some this)) fresh1 = Inr (items', st', fresh')"
      by simp
    from restore_appends(2) [OF nxt] obtain rest where
      "items' = (items @ [TraceGroup fresh kids]) @ rest" unfolding appended_def by blast
    then have "\<exists>rest. items' = items @ TraceGroup fresh kids # rest" by simp
    moreover from restore_owner_frame(2) [OF nxt] lt assms(3)
    have "owner (st' fresh) = Some this" by (simp add: owner_frame_def set_owner_def)
    ultimately show ?thesis using False by simp
  qed
qed

theorem restore_group_section_witness:
  "restore_loop 0 [] c9_settings 0 [''a'' \<mapsto> 2] c8_store 3
     = Inr ([TraceGroup 4 [Trace 2]],
            set_owner (restack_items [Trace 2]
              (set_owner (set_owner (set_owner c8_store 3 None) 4 None) 2 (Some 4))) 4 (Some 0), 5)
   \<and> (\<exists>rest. [TraceGroup 4 [Trace 2]] = [] @ rest \<and> 3 \<notin> ptr_of ` set rest)
   \<and> owner (set_owner (restack_items [Trace 2]
              (set_owner (set_owner (set_owner c8_store 3 None) 4 None) 2 (Some 4))) 4 (Some 0) 3)
       = None
   \<and> restore_loop 0 [] c9_settings (Suc 0) [''a'' \<mapsto> 2] c8_store 3
     = Inr ([TraceGroup 3 [Trace 2]],
            set_owner (restack_items [Trace 2]
              (set_owner (set_owner c8_store 3 None) 2 (Some 3))) 3 (Some 0), 4)
   \<and> (\<exists>rest. [TraceGroup 3 [Trace 2]] = [] @ TraceGroup 3 [Trace 2] # rest)
   \<and> owner (set_owner (restack_items [Trace 2]
              (set_owner (set_owner c8_store 3 None) 2 (Some 3))) 3 (Some 0) 3)
       = Some 0"
proof -
  let ?tab = "[''a'' \<mapsto> (2::nat)]"
  let ?st0 = "set_owner (restack_items [Trace 2]
              (set_owner (set_owner (set_owner c8_store 3 None) 4 None) 2 (Some 4))) 4 (Some 0)"
  let ?st1 = "set_owner (restack_items [Trace 2]
              (set_owner (set_owner c8_store 3 None) 2 (Some 3))) 3 (Some 0)"
  have cnt: "int 0 < items_count c9_settings" "int (Suc 0) < items_count c9_settings"
    "items_value (beginGroup c9_settings 0) \<noteq> None"
    "items_value (beginGroup c9_settings (Suc 0)) \<noteq> None"
    by (simp_all add: c9_settings_def beginGroup_def items_count_def)
  have tab: "3 \<notin> ran ?tab" by simp
  have rec0: "restore_trace_tree 3 [] (beginGroup c9_settings 0) ?tab (set_owner c8_store 3 None) (Suc 3)
          = Inr ([], set_owner c8_store 3 None, 4)"
    by (simp add: restore_trace_tree.simps restore_loop.simps c9_settings_def beginGroup_def
          items_count_def restack_items_def stable_sort_def trace_tree_child_items_def)
  have rec1: "restore_trace_tree 3 [] (beginGroup c9_settings (Suc 0)) ?tab (set_owner c8_store 3 None) (Suc 3)
          = Inr ([Trace 2], restack_items [Trace 2] (set_owner (set_owner c8_store 3 None) 2 (Some 3)), 4)"
    by (simp add: restore_trace_tree.simps restore_loop.simps c9_settings_def beginGroup_def
          items_count_def add_child_item_def set_owner_def c8_store_def default_attrs_def)
  have tab4: "4 \<notin> ran ?tab" by simp
  have rec4: "restore_trace_tree 4 [] (beginGroup c9_settings (Suc 0)) ?tab
                (set_owner (set_owner c8_store 3 None) 4 None) (Suc 4)
          = Inr ([Trace 2], restack_items [Trace 2]
                   (set_owner (set_owner (set_owner c8_store 3 None) 4 None) 2 (Some 4)), 5)"
    by (simp add: restore_trace_tree.simps restore_loop.simps c9_settings_def beginGroup_def
          items_count_def add_child_item_def set_owner_def c8_store_def default_attrs_def)
  have fin: "restore_loop 0 xs c9_settings (Suc (Suc 0)) ?tab sto f = Inr (xs, sto, f)" for xs sto f
    by (subst restore_loop.simps) (simp add: c9_settings_def items_count_def)
  have all1: "restore_loop 0 [] c9_settings (Suc 0) ?tab c8_store 3 = Inr ([TraceGroup 3 [Trace 2]], ?st1, 4)"
    using restore_group_section [OF cnt(2) cnt(4) tab rec1, of 0 "[]"] by (simp add: fin)
  have "restore_loop 0 [] c9_settings (Suc 0) ?tab (set_owner c8_store 3 None) 4
          = Inr ([TraceGroup 4 [Trace 2]], ?st0, 5)"
    using restore_group_section [OF cnt(2) cnt(4) tab4 rec4, of 0 "[]"] by (simp add: fin)
  then have all0: "restore_loop 0 [] c9_settings 0 ?tab c8_store 3 = Inr ([TraceGroup 4 [Trace 2]], ?st0, 5)"
    using restore_group_section [OF cnt(1) cnt(3) tab rec0, of 0 "[]"] by simp
  from restore_group_section [OF cnt(1) cnt(3) tab rec0, of 0 "[]"] all0
  have a: "(\<exists>rest. [TraceGroup 4 [Trace 2]] = [] @ rest \<and> 3 \<notin> ptr_of ` set rest)
           \<and> owner (?st0 3) = None" by simp
  from restore_group_section [OF cnt(2) cnt(4) tab rec1, of 0 "[]"] all1
  have b: "(\<exists>rest. [TraceGroup 3 [Trace 2]] = [] @ TraceGroup 3 [Trace 2] # rest)
           \<and> owner (?st1 3) = Some 0" by simp
  from all0 all1 a b show ?thesis by blast
qed

text \<open>
  C10: a numbered section with neither the key \<open>"items"\<close> nor the key \<open>"trace"\<close>
  is skipped: the children, the store and the next unused address are what they were, no
  error is raised, and the loop goes on with the next section.
\<close>

theorem restore_section_without_keys:
  assumes "int i < items_count s" and "items_value (beginGroup s i) = None"
    and "trace_value (beginGroup s i) = None"
  shows "restore_loop this items s i tab st fresh = restore_loop this items s (Suc i) tab st fresh"
  using assms by (subst restore_loop.simps) simp

theorem restore_section_without_keys_witness:
  "restore_loop 0 [] c10_settings 0 [''a'' \<mapsto> 2] c8_store 3 =
     restore_loop 0 [] c10_settings (Suc 0) [''a'' \<mapsto> 2] c8_store 3
   \<and> restore_trace_tree 0 [] c10_settings [''a'' \<mapsto> 2] c8_store 3 =
     Inr ([Trace 2], restack_items [Trace 2] (set_owner c8_store 2 (Some 0)), 3)"
proof
  from restore_section_without_keys [of 0 c10_settings 0 "[]" "[''a'' \<mapsto> 2]" c8_store 3]
  show a: "restore_loop 0 [] c10_settings 0 [''a'' \<mapsto> 2] c8_store 3 =
     restore_loop 0 [] c10_settings (Suc 0) [''a'' \<mapsto> 2] c8_store 3"
    by (simp add: c10_settings_def beginGroup_def items_count_def)
  show "restore_trace_tree 0 [] c10_settings [''a'' \<mapsto> 2] c8_store 3 =
     Inr ([Trace 2], restack_items [Trace 2] (set_owner c8_store 2 (Some 0)), 3)"
    unfolding restore_trace_tree.simps [of 0 "[]" c10_settings] a
    by (simp add: restore_loop.simps c10_settings_def beginGroup_def
          items_count_def add_child_item_def c8_store_def default_attrs_def set_owner_def)
qed

lemma offsets_differ_refl: "offsets_differ P st st"
  by (simp add: offsets_differ_def)

lemma offsets_differ_flags:
  assumes "offsets_differ P st st'"
  shows "enabled (st' p) = enabled (st p)" "dragging (st' p) = dragging (st p)"
    "own_extents (st' p) = own_extents (st p)" "owner (st' p) = owner (st p)"
    "name (st' p) = name (st p)"
proof -
  from assms have "st' p = (st p)\<lparr>layout_v_offset := layout_v_offset (st' p)\<rparr>"
    unfolding offsets_differ_def by blast
  then obtain v where "st' p = (st p)\<lparr>layout_v_offset := v\<rparr>" ..
  then show "enabled (st' p) = enabled (st p)" "dragging (st' p) = dragging (st p)"
    "own_extents (st' p) = own_extents (st p)" "owner (st' p) = owner (st p)"
    "name (st' p) = name (st p)" by simp_all
qed

lemma offsets_differ_outside: "offsets_differ P st st' \<Longrightarrow> p \<notin> P \<Longrightarrow> st' p = st p"
  by (simp add: offsets_differ_def)

lemma offsets_differ_trans:
  assumes "offsets_differ P st st1" and "offsets_differ Q st1 st2"
  shows "offsets_differ (P \<union> Q) st st2"
  unfolding offsets_differ_def
proof (intro allI conjI impI)
  fix p
  show "st2 p = st p" if "p \<notin> P \<union> Q"
    using that assms by (simp add: offsets_differ_outside)
  have "st2 p = (st1 p)\<lparr>layout_v_offset := layout_v_offset (st2 p)\<rparr>"
    using assms(2) unfolding offsets_differ_def by blast
  moreover have "st1 p = (st p)\<lparr>layout_v_offset := layout_v_offset (st1 p)\<rparr>"
    using assms(1) unfolding offsets_differ_def by blast
  ultimately show "st2 p = (st p)\<lparr>layout_v_offset := layout_v_offset (st2 p)\<rparr>"
    by (metis attrs.update_convs(4) attrs.surjective)
qed

lemma offsets_differ_mono: "offsets_differ P st st' \<Longrightarrow> P \<subseteq> Q \<Longrightarrow> offsets_differ Q st st'"
  unfolding offsets_differ_def by blast

lemma offsets_differ_set: "offsets_differ {p} st (set_layout_v_offset st p v)"
  by (simp add: offsets_differ_def set_layout_v_offset_def)

subsection \<open>Restacking\<close>

text \<open>The extent of an item depends on the offsets of the objects nested in it only.\<close>

lemma ptr_of_in_ptrs_of: "ptr_of t \<in> set (ptrs_of t)"
  by (cases t) simp_all

lemma below_subset: "set (below t) \<subseteq> set (ptrs_of t)"
  by (cases t) auto

lemma ptrs_of_subset_forest: "t \<in> set ts \<Longrightarrow> set (ptrs_of t) \<subseteq> set (ptrs_forest ts)"
  by (induction ts) auto

lemma v_extents_loop_frame:
  assumes "offsets_differ P st st'"
    and "\<And>t. t \<in> set ts \<Longrightarrow> item_v_extents st' t = item_v_extents st t"
    and "P \<inter> ptr_of ` set ts = {}"
  shows "v_extents_loop st' ts acc = v_extents_loop st ts acc"
  using assms(2,3)
proof (induction ts arbitrary: acc)
  case Nil
  show ?case by simp
next
  case (Cons t ts)
  from Cons.prems(2) have "ptr_of t \<notin> P" by auto
  with assms(1) have same: "st' (ptr_of t) = st (ptr_of t)" by (rule offsets_differ_outside)
  have e: "item_v_extents st' t = item_v_extents st t" by (rule Cons.prems(1)) simp
  have ih: "v_extents_loop st' ts a = v_extents_loop st ts a" for a
    using Cons.prems by (intro Cons.IH) auto
  obtain h lo hi where acc: "acc = (h, lo, hi)" by (cases acc)
  show ?case by (simp add: acc same e ih)
qed

lemma extents_frame:
  "offsets_differ P st st' \<Longrightarrow> P \<inter> set (below t) = {} \<Longrightarrow>
     item_v_extents st' t = item_v_extents st t"
proof (induction t)
  case (Trace p)
  then show ?case by (simp add: offsets_differ_flags)
next
  case (TraceGroup p kids)
  have "v_extents_loop st' kids acc = v_extents_loop st kids acc" for acc
  proof (rule v_extents_loop_frame [OF TraceGroup.prems(1)])
    fix t assume t: "t \<in> set kids"
    with TraceGroup.prems(2) have "P \<inter> set (below t) = {}"
      using below_subset [of t] ptrs_of_subset_forest [OF t] by auto
    with TraceGroup.IH [OF t TraceGroup.prems(1)]
    show "item_v_extents st' t = item_v_extents st t" .
  next
    show "P \<inter> ptr_of ` set kids = {}"
      using TraceGroup.prems(2) ptr_of_in_ptrs_of ptrs_of_subset_forest by fastforce
  qed
  then show ?case by simp
qed

lemma tree_no_nesting:
  "distinct (ptrs_forest ts) \<Longrightarrow> r \<in> set ts \<Longrightarrow> t \<in> set ts \<Longrightarrow> ptr_of r \<notin> set (below t)"
proof (induction ts)
  case Nil
  then show ?case by simp
next
  case (Cons a ts)
  from Cons.prems(1) have d: "distinct (ptrs_of a)" "distinct (ptrs_forest ts)"
    "set (ptrs_of a) \<inter> set (ptrs_forest ts) = {}" by simp_all
  have self: "ptr_of a \<notin> set (below a)" using d(1) by (cases a) simp_all
  show ?case
  proof (cases "r = a")
    case ra: True
    show ?thesis
    proof (cases "t = a")
      case True
      with ra self show ?thesis by simp
    next
      case False
      with Cons.prems(3) have "t \<in> set ts" by simp
      then have "set (below t) \<subseteq> set (ptrs_forest ts)"
        using below_subset [of t] ptrs_of_subset_forest [of t ts] by blast
      with d(3) ptr_of_in_ptrs_of [of a] ra show ?thesis by blast
    qed
  next
    case False
    with Cons.prems(2) have r: "r \<in> set ts" by simp
    show ?thesis
    proof (cases "t = a")
      case True
      from r have "ptr_of r \<in> set (ptrs_forest ts)"
        using ptr_of_in_ptrs_of [of r] ptrs_of_subset_forest [of r ts] by blast
      with d(3) below_subset [of a] True show ?thesis by blast
    next
      case False
      with Cons.prems(3) have "t \<in> set ts" by simp
      with Cons.IH [OF d(2) r] show ?thesis .
    qed
  qed
qed

lemma tree_distinct_children: "distinct (ptrs_forest ts) \<Longrightarrow> distinct (map ptr_of ts)"
proof (induction ts)
  case Nil
  show ?case by simp
next
  case (Cons a ts)
  from Cons.prems have d: "distinct (ptrs_forest ts)"
    "set (ptrs_of a) \<inter> set (ptrs_forest ts) = {}" by simp_all
  have "ptr_of ` set ts \<subseteq> set (ptrs_forest ts)"
    using ptr_of_in_ptrs_of ptrs_of_subset_forest by fastforce
  with d(2) ptr_of_in_ptrs_of [of a] have "ptr_of a \<notin> ptr_of ` set ts" by blast
  with Cons.IH [OF d(1)] show ?case by simp
qed

lemma restack_loop_append:
  "restack_loop (xs @ ys) t st =
     restack_loop ys (fst (restack_loop xs t st)) (snd (restack_loop xs t st))"
  by (induction xs arbitrary: t st) (simp_all add: Let_def)

lemma restack_loop_differ:
  "offsets_differ (ptr_of ` set rs) st (snd (restack_loop rs t st))"
proof (induction rs arbitrary: t st)
  case Nil
  show ?case by (simp add: offsets_differ_refl)
next
  case (Cons r rs)
  have step: "offsets_differ (ptr_of ` set (r # rs)) st (snd (restack_loop rs t' st1))"
    if "offsets_differ {ptr_of r} st st1" for t' st1
    using offsets_differ_trans [OF that Cons.IH [of st1 t']] by simp
  have keep: "offsets_differ (ptr_of ` set (r # rs)) st (snd (restack_loop rs t' st))" for t'
    using step [OF offsets_differ_refl] .
  show ?case
    by (simp add: Let_def keep step offsets_differ_set del: set_simps)
qed

lemma restack_loop_Cons:
  "restack_loop (r # rs) t st =
     (if item_v_extents st r = (0, 0) then restack_loop rs t st
      else restack_loop rs (advance st r t) (place st r t))"
  by (auto simp: Let_def placed_def advance_def place_def set_layout_v_offset_def prod_eq_iff)

declare restack_loop.simps(2) [simp del]

lemma offsets_differ_place: "offsets_differ {ptr_of r} st (place st r t)"
  by (simp add: place_def offsets_differ_set offsets_differ_refl)

lemma offsets_differ_set_both:
  assumes "offsets_differ P st st'"
  shows "offsets_differ P (set_layout_v_offset st p v) (set_layout_v_offset st' p v)"
proof -
  have "st' p = (st p)\<lparr>layout_v_offset := layout_v_offset (st' p)\<rparr>"
    using assms unfolding offsets_differ_def by blast
  then obtain w where "st' p = (st p)\<lparr>layout_v_offset := w\<rparr>" ..
  then have "(st' p)\<lparr>layout_v_offset := v\<rparr> = (st p)\<lparr>layout_v_offset := v\<rparr>" by simp
  with assms show ?thesis
    by (auto simp: offsets_differ_def set_layout_v_offset_def)
qed

lemma restack_loop_inert:
  assumes "offsets_differ {ptr_of x} st st'"
    and "item_v_extents st x = (0, 0) \<or> \<not> enabled (st (ptr_of x))"
    and "\<forall>r\<in>set rs. ptr_of x \<notin> set (below r) \<and> ptr_of r \<notin> set (below x)
            \<and> (r \<noteq> x \<longrightarrow> ptr_of r \<noteq> ptr_of x)"
  shows "fst (restack_loop rs t st') = fst (restack_loop (filter (\<lambda>r. r \<noteq> x) rs) t st)
       \<and> offsets_differ {ptr_of x} (snd (restack_loop (filter (\<lambda>r. r \<noteq> x) rs) t st))
            (snd (restack_loop rs t st'))"
  using assms
proof (induction rs arbitrary: t st st')
  case Nil
  then show ?case by simp
next
  case (Cons r rs)
  note diff = Cons.prems(1) and inert = Cons.prems(2)
  from Cons.prems(3) have tl: "\<forall>r\<in>set rs. ptr_of x \<notin> set (below r) \<and> ptr_of r \<notin> set (below x)
            \<and> (r \<noteq> x \<longrightarrow> ptr_of r \<noteq> ptr_of x)" by simp
  from Cons.prems(3) have hd: "ptr_of x \<notin> set (below r)" "ptr_of r \<notin> set (below x)"
    "r \<noteq> x \<Longrightarrow> ptr_of r \<noteq> ptr_of x" by simp_all
  have ext: "item_v_extents st' r = item_v_extents st r"
    using extents_frame [OF diff] hd(1) by simp
  show ?case
  proof (cases "r = x")
    case True
    have en: "enabled (st' (ptr_of x)) = enabled (st (ptr_of x))"
      using diff by (rule offsets_differ_flags)
    show ?thesis
    proof (cases "item_v_extents st x = (0, 0)")
      case zero: True
      with Cons.IH [OF diff inert tl, of t] True ext show ?thesis
        by (simp add: restack_loop_Cons)
    next
      case False
      with inert have dis: "\<not> enabled (st (ptr_of x))" by simp
      have "offsets_differ ({ptr_of x} \<union> {ptr_of x}) st (place st' x t)"
        using diff offsets_differ_place by (rule offsets_differ_trans)
      then have d1: "offsets_differ {ptr_of x} st (place st' x t)" by simp
      have "advance st' x t = t" using dis en by (simp add: advance_def)
      with Cons.IH [OF d1 inert tl, of t] True ext False show ?thesis
        by (simp add: restack_loop_Cons)
    qed
  next
    case False
    from hd(3) [OF False] diff have same: "st' (ptr_of r) = st (ptr_of r)"
      by (simp add: offsets_differ_outside)
    show ?thesis
    proof (cases "item_v_extents st r = (0, 0)")
      case True
      with Cons.IH [OF diff inert tl, of t] False ext show ?thesis
        by (simp add: restack_loop_Cons)
    next
      case nz: False
      have adv: "advance st' r t = advance st r t"
        by (simp add: advance_def placed_def same ext)
      have d1: "offsets_differ {ptr_of x} (place st r t) (place st' r t)"
        using diff by (simp add: place_def placed_def same ext offsets_differ_set_both)
      have "item_v_extents (place st r t) x = item_v_extents st x"
        using extents_frame [OF offsets_differ_place, of r x st t] hd(2) by simp
      moreover have "enabled (place st r t (ptr_of x)) = enabled (st (ptr_of x))"
        using offsets_differ_place by (rule offsets_differ_flags)
      ultimately have inert1: "item_v_extents (place st r t) x = (0, 0)
          \<or> \<not> enabled (place st r t (ptr_of x))" using inert by simp
      from Cons.IH [OF d1 inert1 tl, of "advance st r t"] False ext nz adv show ?thesis
        by (simp add: restack_loop_Cons)
    qed
  qed
qed

lemma restack_loop_untouched:
  "p \<notin> ptr_of ` set rs \<Longrightarrow> snd (restack_loop rs t st) p = st p"
  using restack_loop_differ [of rs st t] by (simp add: offsets_differ_outside)

lemma restack_loop_zero_untouched:
  assumes "item_v_extents st z = (0, 0)"
    and "\<forall>r\<in>set rs. ptr_of r \<notin> set (below z) \<and> (r \<noteq> z \<longrightarrow> ptr_of r \<noteq> ptr_of z)"
  shows "snd (restack_loop rs t st) (ptr_of z) = st (ptr_of z)"
  using assms
proof (induction rs arbitrary: t st)
  case Nil
  show ?case by simp
next
  case (Cons r rs)
  from Cons.prems(2) have tl: "\<forall>r\<in>set rs. ptr_of r \<notin> set (below z) \<and> (r \<noteq> z \<longrightarrow> ptr_of r \<noteq> ptr_of z)"
    and hd: "ptr_of r \<notin> set (below z)" "r \<noteq> z \<Longrightarrow> ptr_of r \<noteq> ptr_of z" by simp_all
  show ?case
  proof (cases "item_v_extents st r = (0, 0)")
    case True
    with Cons.IH [OF Cons.prems(1) tl, of t] show ?thesis by (simp add: restack_loop_Cons)
  next
    case False
    with Cons.prems(1) have ne: "r \<noteq> z" by auto
    have "item_v_extents (place st r t) z = (0, 0)"
      using extents_frame [OF offsets_differ_place, of r z st t] hd(1) Cons.prems(1) by simp
    from Cons.IH [OF this tl, of "advance st r t"] False
    have "snd (restack_loop (r # rs) t st) (ptr_of z) = place st r t (ptr_of z)"
      by (simp add: restack_loop_Cons)
    also have "\<dots> = st (ptr_of z)"
      using offsets_differ_place [of r st t] hd(2) [OF ne] by (simp add: offsets_differ_outside)
    finally show ?thesis .
  qed
qed

lemma half32_eq: "half32 a = sgn a * (\<bar>a\<bar> div 2)"
  by (simp add: half32_def sgn_if)

lemma sorted_children_props:
  assumes "distinct (ptrs_forest items)" and "x \<in> set items"
  shows "\<forall>r\<in>set (stable_sort k items). ptr_of x \<notin> set (below r) \<and> ptr_of r \<notin> set (below x)
            \<and> (r \<noteq> x \<longrightarrow> ptr_of r \<noteq> ptr_of x)"
proof
  fix r assume "r \<in> set (stable_sort k items)"
  then have r: "r \<in> set items" by (simp add: stable_sort_def)
  have "distinct (map ptr_of items)" using assms(1) by (rule tree_distinct_children)
  then have "inj_on ptr_of (set items)" by (simp add: distinct_map)
  with r assms(2) have "r \<noteq> x \<longrightarrow> ptr_of r \<noteq> ptr_of x" by (auto dest: inj_onD)
  with tree_no_nesting [OF assms(1) assms(2) r] tree_no_nesting [OF assms(1) r assms(2)]
  show "ptr_of x \<notin> set (below r) \<and> ptr_of r \<notin> set (below x)
            \<and> (r \<noteq> x \<longrightarrow> ptr_of r \<noteq> ptr_of x)" by simp
qed

lemma stable_sort_removeAll:
  "filter (\<lambda>r. r \<noteq> x) (stable_sort k items) = stable_sort k (removeAll x items)"
proof -
  have "removeAll x items = filter (\<lambda>r. r \<noteq> x) items"
    by (induction items) auto
  then show ?thesis by (simp add: stable_sort_def filter_sort)
qed

lemma restack_items_inert:
  assumes "distinct (ptrs_forest items)" and "x \<in> set items"
    and "item_v_extents st x = (0, 0) \<or> \<not> enabled (st (ptr_of x))"
  shows "offsets_differ {ptr_of x} (restack_items (removeAll x items) st) (restack_items items st)"
  using restack_loop_inert [OF offsets_differ_refl assms(3)
          sorted_children_props [OF assms(1,2)], of "center_key st" 0]
  by (simp add: restack_items_def trace_tree_child_items_def stable_sort_removeAll)

text \<open>
  C6: in a tree, a direct child whose extent is \<open>(0, 0)\<close> keeps its offset, and the
  store after \<open>restack_items\<close> is the one obtained with that child taken out of the
  list: the offsets of all other children are as if it were absent.
\<close>

theorem restack_zero_extent_child:
  assumes "distinct (ptrs_forest items)" and "z \<in> set items"
    and "item_v_extents st z = (0, 0)"
  shows "layout_v_offset (restack_items items st (ptr_of z)) = layout_v_offset (st (ptr_of z))
       \<and> restack_items items st = restack_items (removeAll z items) st"
proof -
  let ?rs = "stable_sort (center_key st) items"
  have props: "\<forall>r\<in>set ?rs. ptr_of r \<notin> set (below z) \<and> (r \<noteq> z \<longrightarrow> ptr_of r \<noteq> ptr_of z)"
    using sorted_children_props [OF assms(1,2), of "center_key st"] by simp
  have keep: "restack_items items st (ptr_of z) = st (ptr_of z)"
    using restack_loop_zero_untouched [OF assms(3) props, of 0]
    by (simp add: restack_items_def trace_tree_child_items_def)
  have "distinct (map ptr_of items)" using assms(1) by (rule tree_distinct_children)
  then have "ptr_of z \<notin> ptr_of ` set (removeAll z items)"
    using assms(2) by (auto simp: distinct_map dest: inj_onD)
  then have keep': "restack_items (removeAll z items) st (ptr_of z) = st (ptr_of z)"
    using restack_loop_untouched [of "ptr_of z" "stable_sort (center_key st) (removeAll z items)" 0 st]
    by (simp add: restack_items_def trace_tree_child_items_def stable_sort_def)
  have d: "offsets_differ {ptr_of z} (restack_items (removeAll z items) st) (restack_items items st)"
    using assms by (intro restack_items_inert) simp_all
  have "restack_items items st p = restack_items (removeAll z items) st p" for p
    using keep keep' offsets_differ_outside [OF d, of p] by (cases "p = ptr_of z") simp_all
  then have "restack_items items st = restack_items (removeAll z items) st" by (rule ext)
  with keep show ?thesis by simp
qed

theorem restack_zero_extent_child_witness:
  "layout_v_offset (restack_items [Trace 1, TraceGroup 2 [], Trace 3] c6_store 2) = 7
   \<and> restack_items [Trace 1, TraceGroup 2 [], Trace 3] c6_store
       = restack_items [Trace 1, Trace 3] c6_store"
proof -
  have a: "distinct (ptrs_forest [Trace 1, TraceGroup 2 [], Trace 3])" by simp
  have b: "TraceGroup 2 [] \<in> set [Trace 1, TraceGroup 2 [], Trace 3]" by simp
  have c: "item_v_extents c6_store (TraceGroup 2 []) = (0, 0)" by simp
  have d: "layout_v_offset (c6_store 2) = 7" by (simp add: c6_store_def default_attrs_def)
  have r: "removeAll (TraceGroup 2 []) [Trace 1, TraceGroup 2 [], Trace 3] = [Trace 1, Trace 3]"
    by simp
  from restack_zero_extent_child [OF a b c] show ?thesis unfolding r ptr_of.simps d .
qed

text \<open>
  C7: in a tree, a disabled child \<open>d\<close> of non-zero extent that is not being dragged
  is given the value the accumulator has after the children sorted before it; the
  accumulator is the same after \<open>d\<close> as before it; and every object other than
  \<open>d\<close> ends as it would with \<open>d\<close> taken out of the list.
\<close>

theorem restack_disabled_child:
  assumes "distinct (ptrs_forest items)"
    and "stable_sort (center_key st) (trace_tree_child_items items) = pre @ d # post"
    and "\<not> enabled (st (ptr_of d))" and "\<not> dragging (st (ptr_of d))"
    and "item_v_extents st d \<noteq> (0, 0)"
  shows "layout_v_offset (restack_items items st (ptr_of d)) = fst (restack_loop pre 0 st)
       \<and> fst (restack_loop (pre @ [d]) 0 st) = fst (restack_loop pre 0 st)
       \<and> (\<forall>p. p \<noteq> ptr_of d \<longrightarrow>
             restack_items items st p = restack_items (removeAll d items) st p)"
proof -
  let ?q = "ptr_of d"
  let ?t1 = "fst (restack_loop pre 0 st)" and ?st1 = "snd (restack_loop pre 0 st)"
  note sorted = assms(2) [unfolded trace_tree_child_items_def]
  have "set (stable_sort (center_key st) items) = set items" by (simp add: stable_sort_def)
  with sorted have mem: "d \<in> set items" "set pre \<subseteq> set items" "set post \<subseteq> set items"
    by auto
  have dist: "distinct (map ptr_of (pre @ d # post))"
    using tree_distinct_children [OF assms(1)] sorted [symmetric]
    by (simp add: stable_sort_def distinct_map inj_on_def del: distinct_append map_append)
  have d1: "offsets_differ (ptr_of ` set pre) st ?st1" by (rule restack_loop_differ)
  have "ptr_of ` set pre \<inter> set (below d) = {}"
    using tree_no_nesting [OF assms(1) _ mem(1)] mem(2) by auto
  with d1 have e1: "item_v_extents ?st1 d = item_v_extents st d" by (rule extents_frame)
  have f1: "enabled (?st1 ?q) = enabled (st ?q)" "dragging (?st1 ?q) = dragging (st ?q)"
    using d1 by (rule offsets_differ_flags)+
  have adv: "advance ?st1 d ?t1 = ?t1" using f1 assms(3) by (simp add: advance_def)
  have plc: "place ?st1 d ?t1 = set_layout_v_offset ?st1 ?q ?t1"
    using f1 assms(3,4) by (simp add: place_def placed_def)
  have run: "restack_loop (pre @ d # post) 0 st
               = restack_loop post ?t1 (set_layout_v_offset ?st1 ?q ?t1)"
    using e1 assms(5) adv plc by (simp add: restack_loop_append restack_loop_Cons)
  have "?q \<notin> ptr_of ` set post" using dist by auto
  then have "snd (restack_loop post ?t1 (set_layout_v_offset ?st1 ?q ?t1)) ?q
               = set_layout_v_offset ?st1 ?q ?t1 ?q" by (rule restack_loop_untouched)
  then have one: "layout_v_offset (restack_items items st ?q) = ?t1"
    by (simp add: restack_items_def trace_tree_child_items_def sorted run set_layout_v_offset_def)
  have two: "fst (restack_loop (pre @ [d]) 0 st) = ?t1"
    using e1 assms(5) adv by (simp add: restack_loop_append restack_loop_Cons)
  have "offsets_differ {?q} (restack_items (removeAll d items) st) (restack_items items st)"
    using assms(1) mem(1) assms(3) by (intro restack_items_inert) simp_all
  then have three: "\<forall>p. p \<noteq> ?q \<longrightarrow> restack_items items st p = restack_items (removeAll d items) st p"
    by (simp add: offsets_differ_outside)
  from one two three show ?thesis by simp
qed

theorem restack_disabled_child_witness:
  "layout_v_offset (restack_items [Trace 1, Trace 2, Trace 3] c7_store 2) = 10
   \<and> fst (restack_loop [Trace 1, Trace 2] 0 c7_store) = 10
   \<and> restack_items [Trace 1, Trace 2, Trace 3] c7_store 3 = restack_items [Trace 1, Trace 3] c7_store 3"
proof -
  have k: "center_key c7_store (Trace (Suc 0)) = 0" "center_key c7_store (Trace 2) = 50"
    "center_key c7_store (Trace 3) = 100"
    by (simp_all add: center_key_def c7_store_def default_attrs_def add32_def int32_def half32_def)
  have s: "stable_sort (center_key c7_store) (trace_tree_child_items [Trace 1, Trace 2, Trace 3])
             = [Trace 1] @ Trace 2 # [Trace 3]"
    by (simp add: stable_sort_def trace_tree_child_items_def k)
  have t: "fst (restack_loop [Trace 1] 0 c7_store) = 10"
    by (simp add: restack_loop_Cons advance_def placed_def c7_store_def default_attrs_def
          add32_def neg32_def int32_def)
  from restack_disabled_child [OF _ s] t show ?thesis
    by (simp add: c7_store_def default_attrs_def)
qed

subsection \<open>Restacking twice\<close>

lemma int32_id: "INT_MIN \<le> x \<Longrightarrow> x \<le> INT_MAX \<Longrightarrow> int32 x = x"
  by (simp add: int32_def INT_MIN_def INT_MAX_def)

lemma INT_MIN_MAX: "INT_MIN = - INT_MAX - 1" "0 < INT_MAX"
  by (simp_all add: INT_MIN_def INT_MAX_def)

lemma half32_bounds:
  assumes "2 \<le> b - a"
  shows "a \<le> half32 (a + b)" and "half32 (a + b) < b"
  using assms unfolding half32_def by auto

lemma stackable_step:
  assumes "stackable st r" and "fits st H r" and "0 \<le> t"
    and "t + item_height st r \<le> H" and "H \<le> INT_MAX"
  shows "placed st r t = t - fst (item_v_extents st r)"
    and "advance st r t = t + item_height st r"
    and "t \<le> key_at st r (placed st r t)"
    and "key_at st r (placed st r t) < t + item_height st r"
proof -
  obtain a b where e: "item_v_extents st r = (a, b)" by (cases "item_v_extents st r")
  from assms(1) e have ab: "2 \<le> b - a" and en: "enabled (st (ptr_of r))"
    by (simp_all add: stackable_def item_height_def)
  from assms(2) e have f: "- INT_MAX \<le> a" "INT_MIN \<le> a + b" "a + b \<le> INT_MAX"
    "H - b \<le> INT_MAX" by (simp_all add: fits_def)
  from assms(4) e have le: "t + (b - a) \<le> H" by (simp add: item_height_def)
  note t = assms(3) and H = assms(5)
  have "INT_MIN \<le> - a" "- a \<le> INT_MAX" using ab f by (simp_all add: INT_MIN_MAX)
  then have na: "neg32 a = - a" unfolding neg32_def by (rule int32_id)
  have "INT_MIN \<le> t - a" "t - a \<le> INT_MAX" using ab f le t by (simp_all add: INT_MIN_MAX)
  then have "int32 (t - a) = t - a" by (rule int32_id)
  then have p: "placed st r t = t - a" by (simp add: placed_def add32_def e na en)
  show "placed st r t = t - fst (item_v_extents st r)" by (simp add: p e)
  have "INT_MIN \<le> t - a + b" "t - a + b \<le> INT_MAX" using ab le t H by (simp_all add: INT_MIN_MAX)
  then have "add32 (t - a) b = t - a + b" unfolding add32_def by (rule int32_id)
  then show "advance st r t = t + item_height st r"
    by (simp add: advance_def en p e item_height_def)
  have s: "add32 a b = a + b" unfolding add32_def using f(2,3) by (rule int32_id)
  note h = half32_bounds [OF ab]
  have "INT_MIN \<le> t - a + half32 (a + b)" "t - a + half32 (a + b) \<le> INT_MAX"
    using h le t H by (simp_all add: INT_MIN_MAX)
  then have "add32 (t - a) (half32 (a + b)) = t - a + half32 (a + b)"
    unfolding add32_def by (rule int32_id)
  then have k: "key_at st r (placed st r t) = t - a + half32 (a + b)"
    by (simp add: key_at_def e p s)
  show "t \<le> key_at st r (placed st r t)" using h by (simp add: k)
  show "key_at st r (placed st r t) < t + item_height st r"
    using h by (simp add: k item_height_def e)
qed

lemma height_sum_nonneg: "\<forall>r\<in>set rs. stackable st r \<Longrightarrow> 0 \<le> height_sum st rs"
  by (induction rs) (auto simp: height_sum_def stackable_def)

lemma new_keys_sorted:
  assumes "\<forall>r\<in>set rs. stackable st r \<and> fits st H r" and "0 \<le> t"
    and "t + height_sum st rs \<le> H" and "H \<le> INT_MAX"
  shows "sorted_wrt (<) (map2 (key_at st) rs (offsets_walk st rs t))
       \<and> (\<forall>k\<in>set (map2 (key_at st) rs (offsets_walk st rs t)). t \<le> k)"
  using assms(1-3)
proof (induction rs arbitrary: t)
  case Nil
  show ?case by simp
next
  case (Cons r rs)
  from Cons.prems have r: "stackable st r" "fits st H r"
    and rs: "\<forall>r\<in>set rs. stackable st r \<and> fits st H r" by simp_all
  have hs: "height_sum st (r # rs) = item_height st r + height_sum st rs"
    by (simp add: height_sum_def)
  have nn: "0 \<le> height_sum st rs" using rs by (intro height_sum_nonneg) simp
  have hr: "2 \<le> item_height st r" using r by (simp add: stackable_def)
  from Cons.prems(3) nn have le: "t + item_height st r \<le> H" by (simp add: hs)
  note step = stackable_step [OF r Cons.prems(2) le assms(4)]
  have t': "0 \<le> advance st r t" "advance st r t + height_sum st rs \<le> H"
    using Cons.prems(2,3) hr by (simp_all add: step(2) hs)
  from Cons.IH [OF rs t'] have
    ih1: "sorted_wrt (<) (map2 (key_at st) rs (offsets_walk st rs (advance st r t)))"
    and ih2: "\<forall>k\<in>set (map2 (key_at st) rs (offsets_walk st rs (advance st r t))). advance st r t \<le> k"
    by simp_all
  from ih2 step(4) have
    "\<forall>k\<in>set (map2 (key_at st) rs (offsets_walk st rs (advance st r t))). key_at st r (placed st r t) < k"
    unfolding step(2) by fastforce
  moreover from ih2 hr Cons.prems(2) have
    "\<forall>k\<in>set (map2 (key_at st) rs (offsets_walk st rs (advance st r t))). t \<le> k"
    unfolding step(2) by fastforce
  ultimately show ?case using ih1 step(3) by simp
qed

lemma assign_Nil: "assign [] st = st"
  by (simp add: assign_def)

lemma assign_Cons: "assign ((p, v) # as) st = assign as (set_layout_v_offset st p v)"
  by (simp add: assign_def)

lemma assign_append: "assign (as @ bs) st = assign bs (assign as st)"
  by (simp add: assign_def)

lemma assign_apply:
  "assign as st p =
     (case map_of (rev as) p of None \<Rightarrow> st p | Some v \<Rightarrow> (st p)\<lparr>layout_v_offset := v\<rparr>)"
proof (induction as arbitrary: st)
  case Nil
  show ?case by (simp add: assign_Nil)
next
  case (Cons a as)
  obtain q v where a: "a = (q, v)" by (cases a)
  show ?case
    by (cases "map_of (rev as) p")
       (simp_all add: a assign_Cons Cons.IH map_add_def set_layout_v_offset_def)
qed

lemma assign_idem: "assign as (assign as st) = assign as st"
proof
  fix p show "assign as (assign as st) p = assign as st p"
    by (cases "map_of (rev as) p") (simp_all add: assign_apply)
qed

lemma assign_differ: "offsets_differ (fst ` set as) st (assign as st)"
  by (auto simp: offsets_differ_def assign_apply split: option.splits
           dest!: map_of_SomeD intro: rev_image_eqI)

lemma targets_ptrs: "fst ` set (targets st rs t) \<subseteq> ptr_of ` set rs"
  by (induction rs arbitrary: t) auto

lemma targets_nonzero: "targets st (nonzero_children st rs) t = targets st rs t"
  by (induction rs arbitrary: t) (simp_all add: nonzero_children_def)

lemma step_frame:
  assumes "offsets_differ Q st0 st" and "Q \<inter> set (below r) = {}"
  shows "item_v_extents st r = item_v_extents st0 r"
    and "placed st r t = placed st0 r t" and "advance st r t = advance st0 r t"
    and "dragging (st (ptr_of r)) = dragging (st0 (ptr_of r))"
proof -
  show e: "item_v_extents st r = item_v_extents st0 r" using assms by (rule extents_frame)
  have f: "enabled (st (ptr_of r)) = enabled (st0 (ptr_of r))"
    using assms(1) by (rule offsets_differ_flags)
  show p: "placed st r t = placed st0 r t" by (simp add: placed_def e f)
  show "advance st r t = advance st0 r t" by (simp add: advance_def e f p)
  show "dragging (st (ptr_of r)) = dragging (st0 (ptr_of r))"
    using assms(1) by (rule offsets_differ_flags)
qed

lemma targets_frame:
  assumes "offsets_differ Q st0 st" and "\<forall>r\<in>set rs. Q \<inter> set (below r) = {}"
  shows "targets st rs t = targets st0 rs t"
  using assms(2)
proof (induction rs arbitrary: t)
  case Nil
  show ?case by simp
next
  case (Cons r rs)
  from Cons.prems have "Q \<inter> set (below r) = {}" by simp
  note f = step_frame [OF assms(1) this]
  from Cons.prems have "\<forall>r\<in>set rs. Q \<inter> set (below r) = {}" by simp
  note ih = Cons.IH [OF this]
  show ?case by (simp add: f ih)
qed

lemma restack_loop_targets:
  assumes "offsets_differ Q st0 st"
    and "\<forall>x\<in>set rs. (Q \<union> ptr_of ` set rs) \<inter> set (below x) = {}"
  shows "snd (restack_loop rs t st) = assign (targets st0 rs t) st"
  using assms
proof (induction rs arbitrary: t st Q)
  case Nil
  show ?case by (simp add: assign_Nil)
next
  case (Cons r rs)
  from Cons.prems(2) have "Q \<inter> set (below r) = {}" by auto
  note f = step_frame [OF Cons.prems(1) this]
  from Cons.prems(2) have tl: "\<forall>x\<in>set rs. (Q \<union> ptr_of ` set rs) \<inter> set (below x) = {}"
    by auto
  show ?case
  proof (cases "item_v_extents st0 r = (0, 0)")
    case True
    with Cons.IH [OF Cons.prems(1) tl, of t] show ?thesis
      by (simp add: restack_loop_Cons f)
  next
    case False
    have "offsets_differ (Q \<union> {ptr_of r}) st0 (place st r t)"
      using Cons.prems(1) offsets_differ_place by (rule offsets_differ_trans)
    moreover from Cons.prems(2)
    have "\<forall>x\<in>set rs. ((Q \<union> {ptr_of r}) \<union> ptr_of ` set rs) \<inter> set (below x) = {}" by auto
    ultimately have "snd (restack_loop rs (advance st0 r t) (place st r t))
        = assign (targets st0 rs (advance st0 r t)) (place st r t)" by (rule Cons.IH)
    with False show ?thesis
      by (simp add: restack_loop_Cons f place_def assign_append assign_Cons assign_Nil)
  qed
qed

lemma restack_items_targets:
  assumes "distinct (ptrs_forest items)"
  shows "restack_items items st
           = assign (targets st (nonzero_children st (stable_sort (center_key st) items)) 0) st"
proof -
  let ?rs = "stable_sort (center_key st) items"
  have "\<forall>x\<in>set ?rs. ({} \<union> ptr_of ` set ?rs) \<inter> set (below x) = {}"
    using tree_no_nesting [OF assms] by (auto simp: stable_sort_def)
  from restack_loop_targets [OF offsets_differ_refl this, of 0]
  show ?thesis by (simp add: restack_items_def trace_tree_child_items_def targets_nonzero)
qed

lemma stackable_nonzero: "stackable st r \<Longrightarrow> item_v_extents st r \<noteq> (0, 0)"
  by (auto simp: stackable_def item_height_def)

lemma length_offsets_walk: "length (offsets_walk st rs t) = length rs"
  by (induction rs arbitrary: t) simp_all

lemma targets_stackable:
  "\<forall>r\<in>set rs. stackable st r \<Longrightarrow>
     targets st rs t = zip (map ptr_of rs) (offsets_walk st rs t)"
proof (induction rs arbitrary: t)
  case Nil
  show ?case by simp
next
  case (Cons r rs)
  then have "stackable st r" by simp
  then have "item_v_extents st r \<noteq> (0, 0)" "\<not> dragging (st (ptr_of r))"
    by (simp_all add: stackable_nonzero) (simp add: stackable_def)
  with Cons show ?case by simp
qed

lemma assign_zip_lookup:
  "distinct (map ptr_of rs) \<Longrightarrow> length os = length rs \<Longrightarrow>
     map (\<lambda>r. layout_v_offset (assign (zip (map ptr_of rs) os) s (ptr_of r))) rs = os"
proof (induction rs arbitrary: os s)
  case Nil
  then show ?case by simp
next
  case (Cons r rs)
  from Cons.prems(2) obtain v vs where os: "os = v # vs" and len: "length vs = length rs"
    by (cases os) simp_all
  let ?s = "set_layout_v_offset s (ptr_of r) v"
  from Cons.prems(1) have d: "distinct (map ptr_of rs)" and nin: "ptr_of r \<notin> ptr_of ` set rs"
    by simp_all
  have "fst ` set (zip (map ptr_of rs) vs) \<subseteq> ptr_of ` set rs"
    by (auto dest: set_zip_leftD)
  with nin have "ptr_of r \<notin> fst ` set (zip (map ptr_of rs) vs)" by blast
  with assign_differ [of "zip (map ptr_of rs) vs" ?s]
  have "assign (zip (map ptr_of rs) vs) ?s (ptr_of r) = ?s (ptr_of r)"
    by (rule offsets_differ_outside)
  then have hd: "layout_v_offset (assign (zip (map ptr_of rs) vs) ?s (ptr_of r)) = v"
    by (simp add: set_layout_v_offset_def)
  from Cons.IH [OF d len, of ?s] hd show ?case by (simp add: os assign_Cons)
qed

lemma height_sum_mset: "mset xs = mset ys \<Longrightarrow> height_sum st xs = height_sum st ys"
proof -
  assume "mset xs = mset ys"
  then have "sum_mset (image_mset (item_height st) (mset xs))
           = sum_mset (image_mset (item_height st) (mset ys))" by simp
  then show ?thesis unfolding height_sum_def by (simp only: sum_mset_sum_list flip: mset_map)
qed

lemma map_as_map2: "(\<And>r. r \<in> set xs \<Longrightarrow> f r = g r (h r)) \<Longrightarrow> map f xs = map2 g xs (map h xs)"
  by (induction xs) simp_all

text \<open>
  C1, as amended: in a tree whose children of non-zero extent are all enabled, not being
  dragged and at least 2 high, with extents and heights such that no sum of the walk
  overflows (the heights add up to \<open>INT_MAX\<close> at most, and every such extent
  \<open>fits\<close>), a second \<open>restack_items\<close> right after a first one changes nothing:
  every child keeps the offset the first call gave it.
\<close>

theorem restack_items_idempotent:
  assumes "distinct (ptrs_forest items)"
    and "\<forall>r\<in>set items. item_v_extents st r \<noteq> (0, 0) \<longrightarrow>
           stackable st r \<and> fits st (height_sum st (nonzero_children st items)) r"
    and "height_sum st (nonzero_children st items) \<le> INT_MAX"
  shows "restack_items items (restack_items items st) = restack_items items st"
proof -
  let ?st1 = "restack_items items st"
  let ?nz = "nonzero_children st items"
  let ?N = "stable_sort (center_key st) ?nz"
  let ?as = "targets st ?N 0"
  have nzsort: "nonzero_children st (stable_sort k items) = stable_sort k ?nz" for k
    by (simp add: nonzero_children_def stable_sort_def filter_sort)
  have first: "?st1 = assign ?as st"
    by (simp add: restack_items_targets [OF assms(1)] nzsort)
  have setN: "set ?N = set ?nz" "mset ?N = mset ?nz" by (simp_all add: stable_sort_def)
  have sub: "set ?nz \<subseteq> set items" by (auto simp: nonzero_children_def)
  have stk: "\<forall>r\<in>set ?N. stackable st r"
    using assms(2) unfolding setN(1) by (auto simp: nonzero_children_def)
  have fit: "\<forall>r\<in>set ?N. stackable st r \<and> fits st (height_sum st ?nz) r"
    using assms(2) unfolding setN(1) by (auto simp: nonzero_children_def)
  have diff: "offsets_differ (ptr_of ` set items) st ?st1"
    using restack_loop_differ [of "stable_sort (center_key st) items" st 0]
    by (simp add: restack_items_def trace_tree_child_items_def stable_sort_def)
  have nest: "ptr_of ` set items \<inter> set (below r) = {}" if "r \<in> set items" for r
    using tree_no_nesting [OF assms(1) _ that] by auto
  have ext1: "item_v_extents ?st1 r = item_v_extents st r" if "r \<in> set items" for r
    using diff nest [OF that] by (rule extents_frame)
  have nz1: "nonzero_children ?st1 items = ?nz"
    unfolding nonzero_children_def by (rule filter_cong) (simp_all add: ext1)
  \<comment> \<open>the keys of the second call, along the order of the first\<close>
  have dN: "distinct (map ptr_of ?N)"
    using tree_distinct_children [OF assms(1)] sub
    by (auto simp: distinct_map stable_sort_def nonzero_children_def intro: inj_on_subset)
  have tz: "?as = zip (map ptr_of ?N) (offsets_walk st ?N 0)"
    using stk by (rule targets_stackable)
  have offs: "map (\<lambda>r. layout_v_offset (?st1 (ptr_of r))) ?N = offsets_walk st ?N 0"
    unfolding first tz using dN by (rule assign_zip_lookup) (simp add: length_offsets_walk)
  have key1: "center_key ?st1 r = key_at st r (layout_v_offset (?st1 (ptr_of r)))"
    if "r \<in> set ?N" for r
    using ext1 [of r] that sub by (auto simp: setN center_key_def key_at_def Let_def)
  have "map (center_key ?st1) ?N
          = map2 (key_at st) ?N (map (\<lambda>r. layout_v_offset (?st1 (ptr_of r))) ?N)"
    using key1 by (intro map_as_map2) simp
  then have keys: "map (center_key ?st1) ?N = map2 (key_at st) ?N (offsets_walk st ?N 0)"
    by (simp only: offs)
  have "0 + height_sum st ?N \<le> height_sum st ?nz"
    using height_sum_mset [OF setN(2), of st] by simp
  from new_keys_sorted [OF fit _ this assms(3)]
  have strict: "sorted_wrt (<) (map (center_key ?st1) ?N)" by (simp add: keys)
  then have srt: "sorted (map (center_key ?st1) ?N)" and dst: "distinct (map (center_key ?st1) ?N)"
    by (simp_all add: strict_sorted_iff)
  from dst have "inj_on (center_key ?st1) (set ?N)" by (simp add: distinct_map)
  then have inj: "inj_on (center_key ?st1) (set ?nz)" by (simp only: setN)
  have same_order: "stable_sort (center_key ?st1) ?nz = ?N"
    unfolding stable_sort_def [of "center_key ?st1"]
    using setN(2) [symmetric] inj srt by (rule sort_key_inj_key_eq)
  \<comment> \<open>the second call\<close>
  have "restack_items items ?st1
          = assign (targets ?st1 (nonzero_children ?st1 (stable_sort (center_key ?st1) items)) 0) ?st1"
    by (rule restack_items_targets [OF assms(1)])
  also have "nonzero_children ?st1 (stable_sort (center_key ?st1) items)
               = stable_sort (center_key ?st1) (nonzero_children ?st1 items)"
    by (simp add: nonzero_children_def stable_sort_def filter_sort)
  also have "\<dots> = ?N" by (simp only: nz1 same_order)
  also have "targets ?st1 ?N 0 = ?as"
    using diff
  proof (rule targets_frame)
    show "\<forall>r\<in>set ?N. ptr_of ` set items \<inter> set (below r) = {}"
      using nest sub by (auto simp: setN)
  qed
  finally have "restack_items items ?st1 = assign ?as ?st1" .
  then show ?thesis by (simp add: first assign_idem)
qed

lemma restack_two:
  "restack_items [Trace p, Trace q] st =
     snd (restack_loop (if center_key st (Trace q) < center_key st (Trace p)
                        then [Trace q, Trace p] else [Trace p, Trace q]) 0 st)"
  by (simp add: restack_items_def trace_tree_child_items_def stable_sort_def not_less)

text \<open>
  C1 as stated fails.  In each of the three owners the second leaf is given another
  offset by the second call than by the first: next to a dragged leaf (30, then 10), when
  it is disabled (20, then 0), and when both leaves are one unit high, so that their new
  keys are equal and the order of insertion decides (1, then 2).
\<close>

theorem restack_items_idempotent_counterexample:
  "layout_v_offset (restack_items [Trace 1, Trace 2] c1_dragged 2) = 30
   \<and> layout_v_offset (restack_items [Trace 1, Trace 2] (restack_items [Trace 1, Trace 2] c1_dragged) 2) = 10
   \<and> layout_v_offset (restack_items [Trace 1, Trace 2] c1_disabled 2) = 20
   \<and> layout_v_offset (restack_items [Trace 1, Trace 2] (restack_items [Trace 1, Trace 2] c1_disabled) 2) = 0
   \<and> layout_v_offset (restack_items [Trace 1, Trace 2] c1_thin 2) = 1
   \<and> layout_v_offset (restack_items [Trace 1, Trace 2] (restack_items [Trace 1, Trace 2] c1_thin) 2) = 2"
  by (simp add: restack_two center_key_def restack_loop_Cons advance_def placed_def place_def
        set_layout_v_offset_def add32_def neg32_def int32_def half32_def
        c1_dragged_def c1_disabled_def c1_thin_def default_attrs_def)

theorem restack_items_idempotent_witness:
  "restack_items [Trace 1, TraceGroup 2 [], Trace 3]
     (restack_items [Trace 1, TraceGroup 2 [], Trace 3] c1_stacked)
   = restack_items [Trace 1, TraceGroup 2 [], Trace 3] c1_stacked"
proof -
  have a: "distinct (ptrs_forest [Trace 1, TraceGroup 2 [], Trace 3])" by simp
  have H: "height_sum c1_stacked (nonzero_children c1_stacked [Trace 1, TraceGroup 2 [], Trace 3])
             = 14"
    by (simp add: height_sum_def nonzero_children_def item_height_def c1_stacked_def
          default_attrs_def)
  have b: "\<forall>r\<in>set [Trace 1, TraceGroup 2 [], Trace 3].
             item_v_extents c1_stacked r \<noteq> (0, 0) \<longrightarrow>
               stackable c1_stacked r
               \<and> fits c1_stacked
                    (height_sum c1_stacked
                       (nonzero_children c1_stacked [Trace 1, TraceGroup 2 [], Trace 3])) r"
    unfolding H
    by (simp add: stackable_def fits_def item_height_def c1_stacked_def default_attrs_def
          INT_MAX_def INT_MIN_def)
  have c: "height_sum c1_stacked (nonzero_children c1_stacked [Trace 1, TraceGroup 2 [], Trace 3])
             \<le> INT_MAX"
    unfolding H by (simp add: INT_MAX_def)
  from a b c show ?thesis by (rule restack_items_idempotent)
qed

subsection \<open>The order of the walk and the offsets it assigns\<close>

lemma targets_append:
  "targets st (xs @ ys) t = targets st xs t @ targets st ys (total_after st xs t)"
  by (induction xs arbitrary: t) simp_all

lemma assign_outside: "p \<notin> fst ` set as \<Longrightarrow> assign as st p = st p"
  using assign_differ [of as st] by (rule offsets_differ_outside)

lemma restack_items_assign:
  assumes "distinct (ptrs_forest items)"
  shows "restack_items items st = assign (targets st (stable_sort (center_key st) items) 0) st"
proof -
  let ?rs = "stable_sort (center_key st) items"
  have "\<forall>x\<in>set ?rs. ({} \<union> ptr_of ` set ?rs) \<inter> set (below x) = {}"
    using tree_no_nesting [OF assms] by (auto simp: stable_sort_def)
  from restack_loop_targets [OF offsets_differ_refl this, of 0]
  show ?thesis by (simp add: restack_items_def trace_tree_child_items_def)
qed

lemma restack_items_at:
  assumes "distinct (ptrs_forest items)"
    and "stable_sort (center_key st) items = pre @ r # post"
  shows "layout_v_offset (restack_items items st (ptr_of r)) =
           (if item_v_extents st r = (0, 0) \<or> dragging (st (ptr_of r))
            then layout_v_offset (st (ptr_of r))
            else placed st r (total_after st pre 0))"
proof -
  let ?t = "total_after st pre 0"
  let ?A = "targets st pre 0"
  let ?B = "if item_v_extents st r = (0, 0) then []
            else if dragging (st (ptr_of r)) then [] else [(ptr_of r, placed st r ?t)]"
  let ?C = "targets st post (total_after st [r] ?t)"
  have dist: "distinct (map ptr_of (pre @ r # post))"
    using tree_distinct_children [OF assms(1)] assms(2) [symmetric]
    by (simp add: stable_sort_def distinct_map inj_on_def del: distinct_append map_append)
  have split: "targets st (pre @ r # post) 0 = ?A @ ?B @ ?C"
    by (simp add: targets_append)
  from dist have "ptr_of r \<notin> ptr_of ` set pre" "ptr_of r \<notin> ptr_of ` set post" by auto
  with targets_ptrs [of st pre 0] targets_ptrs [of st post "total_after st [r] ?t"]
  have "ptr_of r \<notin> fst ` set ?A" "ptr_of r \<notin> fst ` set ?C" by blast+
  then have "assign (?A @ ?B @ ?C) st (ptr_of r) = assign ?B (assign ?A st) (ptr_of r)"
    and A: "assign ?A st (ptr_of r) = st (ptr_of r)"
    by (simp_all add: assign_append assign_outside)
  moreover have "layout_v_offset (assign ?B (assign ?A st) (ptr_of r)) =
           (if item_v_extents st r = (0, 0) \<or> dragging (st (ptr_of r))
            then layout_v_offset (st (ptr_of r))
            else placed st r ?t)"
    by (simp add: assign_Nil assign_Cons A set_layout_v_offset_def)
  ultimately show ?thesis
    by (simp add: restack_items_assign [OF assms(1)] assms(2) split)
qed

text \<open>
  C5: in a tree, the walk of \<open>restack_items\<close> goes over a permutation of the direct
  children that is sorted by the key
  \<open>layout_v_offset + (v_extents.first + v_extents.second) / 2\<close>, taken in the state at
  the start of the call, with \<open>/\<close> the truncating division on \<open>int\<close>; children of
  equal key keep their order of insertion.  The offset a child has after the call is the
  one the walk over that sequence gives it: its old offset when its extent is \<open>(0, 0)\<close>
  or it is being dragged, and otherwise the accumulator after the children sorted before
  it, less \<open>first\<close> if the child is enabled.  The call changes nothing but the offsets
  of the direct children.
\<close>

theorem restack_items_order:
  assumes "distinct (ptrs_forest items)"
  shows "mset (stable_sort (center_key st) items) = mset items
   \<and> sorted (map (center_key st) (stable_sort (center_key st) items))
   \<and> (\<forall>k. filter (\<lambda>t. center_key st t = k) (stable_sort (center_key st) items)
            = filter (\<lambda>t. center_key st t = k) items)
   \<and> (\<forall>pre r post. stable_sort (center_key st) items = pre @ r # post \<longrightarrow>
         layout_v_offset (restack_items items st (ptr_of r)) =
           (if item_v_extents st r = (0, 0) \<or> dragging (st (ptr_of r))
            then layout_v_offset (st (ptr_of r))
            else placed st r (total_after st pre 0)))
   \<and> offsets_differ (ptr_of ` set items) st (restack_items items st)
   \<and> (\<forall>t. center_key st t =
          add32 (layout_v_offset (st (ptr_of t)))
            (half32 (add32 (fst (item_v_extents st t)) (snd (item_v_extents st t)))))
   \<and> (\<forall>a. half32 a = sgn a * (\<bar>a\<bar> div 2))"
proof (intro conjI allI impI)
  show "mset (stable_sort (center_key st) items) = mset items"
    by (simp add: stable_sort_def)
  show "sorted (map (center_key st) (stable_sort (center_key st) items))"
    by (simp add: stable_sort_def)
  show "filter (\<lambda>t. center_key st t = k) (stable_sort (center_key st) items)
            = filter (\<lambda>t. center_key st t = k) items" for k
    unfolding stable_sort_def by (rule sort_key_stable)
  show "layout_v_offset (restack_items items st (ptr_of r)) =
           (if item_v_extents st r = (0, 0) \<or> dragging (st (ptr_of r))
            then layout_v_offset (st (ptr_of r))
            else placed st r (total_after st pre 0))"
    if "stable_sort (center_key st) items = pre @ r # post" for pre r post
    using assms that by (rule restack_items_at)
  show "offsets_differ (ptr_of ` set items) st (restack_items items st)"
    using restack_loop_differ [of "stable_sort (center_key st) items" st 0]
    by (simp add: restack_items_def trace_tree_child_items_def stable_sort_def)
  show "center_key st t =
          add32 (layout_v_offset (st (ptr_of t)))
            (half32 (add32 (fst (item_v_extents st t)) (snd (item_v_extents st t))))" for t
    by (simp add: center_key_def Let_def)
  show "half32 a = sgn a * (\<bar>a\<bar> div 2)" for a by (rule half32_eq)
qed

theorem restack_items_order_witness:
  "layout_v_offset (restack_items [Trace 1, Trace 2, Trace 3] c7_store 3) = 15
   \<and> layout_v_offset (restack_items [Trace 1, Trace 2, Trace 3] c7_store 2) = 10"
proof -
  have k: "center_key c7_store (Trace (Suc 0)) = 0" "center_key c7_store (Trace 2) = 50"
    "center_key c7_store (Trace 3) = 100"
    by (simp_all add: center_key_def c7_store_def default_attrs_def add32_def int32_def half32_def)
  have s3: "stable_sort (center_key c7_store) [Trace 1, Trace 2, Trace 3]
             = [Trace 1, Trace 2] @ Trace 3 # []"
    and s2: "stable_sort (center_key c7_store) [Trace 1, Trace 2, Trace 3]
             = [Trace 1] @ Trace 2 # [Trace 3]"
    by (simp_all add: stable_sort_def k)
  have d: "distinct (ptrs_forest [Trace 1, Trace 2, Trace 3])" by simp
  have v3: "(if item_v_extents c7_store (Trace 3) = (0, 0) \<or> dragging (c7_store (ptr_of (Trace 3)))
             then layout_v_offset (c7_store (ptr_of (Trace 3)))
             else placed c7_store (Trace 3) (total_after c7_store [Trace 1, Trace 2] 0)) = 15"
    by (simp add: advance_def placed_def c7_store_def default_attrs_def
          add32_def neg32_def int32_def)
  have v2: "(if item_v_extents c7_store (Trace 2) = (0, 0) \<or> dragging (c7_store (ptr_of (Trace 2)))
             then layout_v_offset (c7_store (ptr_of (Trace 2)))
             else placed c7_store (Trace 2) (total_after c7_store [Trace 1] 0)) = 10"
    by (simp add: advance_def placed_def c7_store_def default_attrs_def
          add32_def neg32_def int32_def)
  from restack_items_order [OF d, of c7_store]
  have "\<forall>pre r post. stable_sort (center_key c7_store) [Trace 1, Trace 2, Trace 3] = pre @ r # post \<longrightarrow>
         layout_v_offset (restack_items [Trace 1, Trace 2, Trace 3] c7_store (ptr_of r)) =
           (if item_v_extents c7_store r = (0, 0) \<or> dragging (c7_store (ptr_of r))
            then layout_v_offset (c7_store (ptr_of r))
            else placed c7_store r (total_after c7_store pre 0))"
    by blast
  from this [rule_format, OF s3] this [rule_format, OF s2] show ?thesis
    unfolding v3 v2 by simp
qed

subsection \<open>Saving and restoring\<close>

lemma map_of_put_section:
  "map_of (put_section i sub xs) j = (if j = i then Some sub else map_of xs j)"
  by (induction xs) auto

lemma beginGroup_endGroup:
  "beginGroup (endGroup s i sub) j = (if j = i then sub else beginGroup s j)"
  by (simp add: beginGroup_def endGroup_def map_of_put_section)

lemma save_loop_sections:
  assumes "\<forall>j\<ge>i. beginGroup s j = empty_settings"
  shows "fst (save_loop st kids i s) = i + length kids
       \<and> items_value (snd (save_loop st kids i s)) = items_value s
       \<and> trace_value (snd (save_loop st kids i s)) = trace_value s
       \<and> (\<forall>j. beginGroup (snd (save_loop st kids i s)) j =
              (if i \<le> j \<and> j < i + length kids
               then save_item st (kids ! (j - i)) empty_settings else beginGroup s j))"
  using assms
proof (induction kids arbitrary: i s)
  case Nil
  show ?case by auto
next
  case (Cons k kids)
  let ?s1 = "endGroup s i (save_item st k empty_settings)"
  let ?r = "save_loop st kids (Suc i) ?s1"
  from Cons.prems have bi: "beginGroup s i = empty_settings" by simp
  have "\<forall>j\<ge>Suc i. beginGroup ?s1 j = empty_settings"
    using Cons.prems by (simp add: beginGroup_endGroup)
  from Cons.IH [OF this] have
    ih1: "fst ?r = Suc i + length kids"
    and ih2: "items_value (snd ?r) = items_value ?s1" "trace_value (snd ?r) = trace_value ?s1"
    and ih3: "\<And>j. beginGroup (snd ?r) j =
              (if Suc i \<le> j \<and> j < Suc i + length kids
               then save_item st (kids ! (j - Suc i)) empty_settings else beginGroup ?s1 j)"
    by blast+
  have run: "save_loop st (k # kids) i s = ?r" by (simp add: bi)
  have f: "items_value ?s1 = items_value s" "trace_value ?s1 = trace_value s"
    by (simp_all add: endGroup_def)
  have "beginGroup (snd ?r) j =
          (if i \<le> j \<and> j < i + length (k # kids)
           then save_item st ((k # kids) ! (j - i)) empty_settings else beginGroup s j)" for j
  proof (cases "j = i")
    case True
    then show ?thesis by (simp add: ih3 beginGroup_endGroup bi)
  next
    case False
    show ?thesis
    proof (cases "Suc i \<le> j \<and> j < Suc i + length kids")
      case True
      then have "(k # kids) ! (j - i) = kids ! (j - Suc i)"
        by (simp add: nth_Cons' Suc_diff_Suc)
      with True show ?thesis by (simp add: ih3)
    next
      case out: False
      with False have no: "\<not> (i \<le> j \<and> j < i + length (k # kids))" by auto
      have "beginGroup (snd ?r) j = beginGroup ?s1 j" using out by (simp only: ih3 if_False)
      also have "\<dots> = beginGroup s j" using False by (simp add: beginGroup_endGroup)
      finally show ?thesis using no by auto
    qed
  qed
  with ih1 ih2 f show ?case unfolding run by simp
qed

lemma beginGroup_empty: "beginGroup empty_settings j = empty_settings"
  by (simp add: beginGroup_def empty_settings_def)

lemma save_loop_empty:
  "fst (save_loop st kids 0 empty_settings) = length kids
   \<and> items_value (snd (save_loop st kids 0 empty_settings)) = None
   \<and> (\<forall>j<length kids. beginGroup (snd (save_loop st kids 0 empty_settings)) j
         = save_item st (kids ! j) empty_settings)"
proof -
  have "\<forall>j\<ge>0. beginGroup empty_settings j = empty_settings" by (simp add: beginGroup_empty)
  from save_loop_sections [OF this, of st kids] show ?thesis
    by (simp add: empty_settings_def)
qed

lemma beginGroup_set_items_value: "beginGroup (set_items_value s n) j = beginGroup s j"
  by (simp add: beginGroup_def set_items_value_def)

lemma holds_children_group:
  "holds_children st (save_item st (TraceGroup g kids) empty_settings) kids"
  using save_loop_empty [of st kids]
  by (cases "save_loop st kids 0 empty_settings")
     (simp add: holds_children_def beginGroup_set_items_value, simp add: set_items_value_def)

lemma holds_children_save:
  "holds_children st (save_trace_tree st items empty_settings) items"
  using save_loop_empty [of st items]
  by (cases "save_loop st items 0 empty_settings")
     (simp add: holds_children_def beginGroup_set_items_value save_trace_tree_def
        trace_tree_child_items_def, simp add: set_items_value_def)

lemma save_item_Trace:
  "items_value (save_item st (Trace p) empty_settings) = None"
  "trace_value (save_item st (Trace p) empty_settings) = Some (name (st p))"
  by (simp_all add: set_trace_value_def empty_settings_def)

lemma restore_frame_refl: "restore_frame F st fresh st fresh"
  by (simp add: restore_frame_def)

lemma restore_frame_trans:
  "restore_frame F st fresh st1 fresh1 \<Longrightarrow> restore_frame F' st1 fresh1 st2 fresh2 \<Longrightarrow>
     restore_frame (F \<union> F') st fresh st2 fresh2"
  by (auto simp: restore_frame_def)

lemma restore_frame_owner:
  "restore_frame F st fresh st' fresh' \<Longrightarrow> q < fresh \<Longrightarrow> q \<notin> F \<Longrightarrow> owner (st' q) = owner (st q)"
  by (simp add: restore_frame_def)

lemma restore_children:
  assumes step: "\<And>k this acc s i st' fresh.
      k \<in> set kids \<Longrightarrow> int i < items_count s \<Longrightarrow>
      beginGroup s i = save_item st k empty_settings \<Longrightarrow>
      distinct (found_item tab st k) \<Longrightarrow>
      \<forall>q\<in>set (found_item tab st k). owner (st' q) = None \<and> q < fresh \<Longrightarrow>
      \<exists>G st1 fresh1.
        restore_loop this acc s i tab st' fresh = restore_loop this (acc @ G) s (Suc i) tab st1 fresh1
        \<and> map shape_of G = restored_item tab st k
        \<and> restore_frame (set (found_item tab st k)) st' fresh st1 fresh1"
    and holds: "holds_children st s kids"
    and "i \<le> length kids"
    and "distinct (found_forest tab st (drop i kids))"
    and "\<forall>q\<in>set (found_forest tab st (drop i kids)). owner (st' q) = None \<and> q < fresh"
  shows "\<exists>G st1 fresh1.
        restore_loop this acc s i tab st' fresh = Inr (acc @ G, st1, fresh1)
        \<and> map shape_of G = restored_forest tab st (drop i kids)
        \<and> restore_frame (set (found_forest tab st (drop i kids))) st' fresh st1 fresh1"
  using assms(3-5)
proof (induction "length kids - i" arbitrary: i acc st' fresh)
  case 0
  then have "i = length kids" by simp
  with holds have "\<not> int i < items_count s" by (simp add: holds_children_def items_count_def)
  then have "restore_loop this acc s i tab st' fresh = Inr (acc @ [], st', fresh)"
    by (subst restore_loop.simps) simp
  with \<open>i = length kids\<close> show ?case by (auto simp: restore_frame_refl)
next
  case (Suc n)
  then have lt: "i < length kids" by simp
  let ?k = "kids ! i"
  have dr: "drop i kids = ?k # drop (Suc i) kids" using lt by (simp add: Cons_nth_drop_Suc)
  from holds lt have cnt: "int i < items_count s"
    and sec: "beginGroup s i = save_item st ?k empty_settings"
    by (simp_all add: holds_children_def items_count_def)
  from Suc.prems(2) have d1: "distinct (found_item tab st ?k)"
    and d2: "distinct (found_forest tab st (drop (Suc i) kids))"
    and dj: "set (found_item tab st ?k) \<inter> set (found_forest tab st (drop (Suc i) kids)) = {}"
    by (simp_all add: dr)
  from Suc.prems(3) have o1: "\<forall>q\<in>set (found_item tab st ?k). owner (st' q) = None \<and> q < fresh"
    and o2: "\<forall>q\<in>set (found_forest tab st (drop (Suc i) kids)). owner (st' q) = None \<and> q < fresh"
    by (simp_all add: dr)
  from step [OF _ cnt sec d1 o1, of this acc] lt obtain G1 st1 fresh1 where
    run1: "restore_loop this acc s i tab st' fresh
             = restore_loop this (acc @ G1) s (Suc i) tab st1 fresh1"
    and sh1: "map shape_of G1 = restored_item tab st ?k"
    and fr1: "restore_frame (set (found_item tab st ?k)) st' fresh st1 fresh1"
    by auto
  have o2': "\<forall>q\<in>set (found_forest tab st (drop (Suc i) kids)). owner (st1 q) = None \<and> q < fresh1"
  proof
    fix q assume q: "q \<in> set (found_forest tab st (drop (Suc i) kids))"
    with o2 have a: "owner (st' q) = None" "q < fresh" by simp_all
    from q dj have "q \<notin> set (found_item tab st ?k)" by blast
    from restore_frame_owner [OF fr1 a(2) this] a fr1
    show "owner (st1 q) = None \<and> q < fresh1" by (simp add: restore_frame_def)
  qed
  have "n = length kids - Suc i" using Suc.hyps(2) by simp
  from Suc.hyps(1) [OF this _ d2 o2', of "acc @ G1"] lt obtain G2 st2 fresh2 where
    run2: "restore_loop this (acc @ G1) s (Suc i) tab st1 fresh1 = Inr ((acc @ G1) @ G2, st2, fresh2)"
    and sh2: "map shape_of G2 = restored_forest tab st (drop (Suc i) kids)"
    and fr2: "restore_frame (set (found_forest tab st (drop (Suc i) kids))) st1 fresh1 st2 fresh2"
    by auto
  have "restore_loop this acc s i tab st' fresh = Inr (acc @ (G1 @ G2), st2, fresh2)"
    by (simp add: run1 run2)
  moreover have "map shape_of (G1 @ G2) = restored_forest tab st (drop i kids)"
    by (simp add: dr sh1 sh2)
  moreover have "restore_frame (set (found_forest tab st (drop i kids))) st' fresh st2 fresh2"
    using restore_frame_trans [OF fr1 fr2] by (simp add: dr)
  ultimately show ?case by blast
qed

lemma restore_item:
  assumes "int i < items_count s"
    and "beginGroup s i = save_item st t empty_settings"
    and "distinct (found_item tab st t)"
    and "\<forall>q\<in>set (found_item tab st t). owner (st' q) = None \<and> q < fresh"
  shows "\<exists>G st1 fresh1.
        restore_loop this acc s i tab st' fresh = restore_loop this (acc @ G) s (Suc i) tab st1 fresh1
        \<and> map shape_of G = restored_item tab st t
        \<and> restore_frame (set (found_item tab st t)) st' fresh st1 fresh1"
  using assms
proof (induction t arbitrary: this acc s i st' fresh)
  case (Trace p)
  let ?sub = "beginGroup s i"
  have sub: "items_value ?sub = None" "trace_value ?sub = Some (name (st p))"
    unfolding Trace.prems(2) by (rule save_item_Trace)+
  show ?case
  proof (cases "tab (name (st p))")
    case None
    with Trace.prems(1) sub
    have "restore_loop this acc s i tab st' fresh = restore_loop this (acc @ []) s (Suc i) tab st' fresh"
      by (subst restore_loop.simps) simp
    moreover have "map shape_of [] = restored_item tab st (Trace p)" by (simp add: None)
    moreover have "restore_frame (set (found_item tab st (Trace p))) st' fresh st' fresh"
      by (rule restore_frame_refl)
    ultimately show ?thesis by blast
  next
    case (Some q)
    with Trace.prems(4) have "owner (st' q) = None" by simp
    then have "add_child_item this acc (Trace q) st' = Inr (acc @ [Trace q], set_owner st' q (Some this))"
      by (simp add: add_child_item_def)
    with Trace.prems(1) sub Some
    have "restore_loop this acc s i tab st' fresh
            = restore_loop this (acc @ [Trace q]) s (Suc i) tab (set_owner st' q (Some this)) fresh"
      by (subst restore_loop.simps) simp
    moreover have "restore_frame (set (found_item tab st (Trace p))) st' fresh
                     (set_owner st' q (Some this)) fresh"
      by (simp add: Some restore_frame_def set_owner_def)
    moreover have "map shape_of [Trace q] = restored_item tab st (Trace p)" by (simp add: Some)
    ultimately show ?thesis by blast
  qed
next
  case (TraceGroup g kids)
  let ?sub = "beginGroup s i"
  let ?st0 = "set_owner st' fresh None"
  have hc: "holds_children st ?sub kids"
    unfolding TraceGroup.prems(2) by (rule holds_children_group)
  then have iv: "items_value ?sub \<noteq> None" by (simp add: holds_children_def)
  have own0: "\<forall>q\<in>set (found_forest tab st (drop 0 kids)). owner (?st0 q) = None \<and> q < Suc fresh"
    using TraceGroup.prems(4) by (auto simp: set_owner_def)
  have "\<exists>G st1 fresh1.
        restore_loop fresh [] ?sub 0 tab ?st0 (Suc fresh) = Inr ([] @ G, st1, fresh1)
        \<and> map shape_of G = restored_forest tab st (drop 0 kids)
        \<and> restore_frame (set (found_forest tab st (drop 0 kids))) ?st0 (Suc fresh) st1 fresh1"
  proof (rule restore_children [OF _ hc _ _ own0])
    show "distinct (found_forest tab st (drop 0 kids))" using TraceGroup.prems(3) by simp
  qed (use TraceGroup.IH in simp_all)
  then obtain G st1 fresh1 where
    loop: "restore_loop fresh [] ?sub 0 tab ?st0 (Suc fresh) = Inr (G, st1, fresh1)"
    and sh: "map shape_of G = restored_forest tab st kids"
    and fr: "restore_frame (set (found_forest tab st kids)) ?st0 (Suc fresh) st1 fresh1"
    by auto
  let ?st2 = "restack_items G st1"
  have rec: "restore_trace_tree fresh [] ?sub tab ?st0 (Suc fresh) = Inr (G, ?st2, fresh1)"
    using iv loop by (subst restore_trace_tree.simps) simp
  have le: "fresh \<le> fresh1" using fr by (simp add: restore_frame_def)
  have keep: "owner (?st2 q) = owner (st' q)"
    if "q < fresh" "q \<notin> set (found_forest tab st kids)" for q
  proof -
    have "owner (?st2 q) = owner (st1 q)" by (rule restack_items_owner)
    also have "\<dots> = owner (?st0 q)" using fr that by (simp add: restore_frame_def)
    also have "\<dots> = owner (st' q)" using that by (simp add: set_owner_def)
    finally show ?thesis .
  qed
  have emp: "G = [] \<longleftrightarrow> restored_forest tab st kids = []" using sh by auto
  show ?case
  proof (cases "G = []")
    case True
    with TraceGroup.prems(1) iv rec
    have "restore_loop this acc s i tab st' fresh
            = restore_loop this (acc @ []) s (Suc i) tab ?st2 fresh1"
      by (subst restore_loop.simps) simp
    moreover have "map shape_of [] = restored_item tab st (TraceGroup g kids)"
      using True emp by simp
    moreover have "restore_frame (set (found_item tab st (TraceGroup g kids))) st' fresh ?st2 fresh1"
      using keep le by (simp add: restore_frame_def)
    ultimately show ?thesis by blast
  next
    case False
    have "fresh \<notin> set (found_forest tab st kids)" using TraceGroup.prems(4) by auto
    with fr have "owner (st1 fresh) = owner (?st0 fresh)" by (simp add: restore_frame_def)
    then have "owner (?st2 fresh) = None" by (simp add: restack_items_owner set_owner_def)
    then have "add_child_item this acc (TraceGroup fresh G) ?st2
                 = Inr (acc @ [TraceGroup fresh G], set_owner ?st2 fresh (Some this))"
      by (simp add: add_child_item_def)
    with TraceGroup.prems(1) iv rec False
    have "restore_loop this acc s i tab st' fresh
            = restore_loop this (acc @ [TraceGroup fresh G]) s (Suc i) tab
                (set_owner ?st2 fresh (Some this)) fresh1"
      by (subst restore_loop.simps) simp
    moreover have "map shape_of [TraceGroup fresh G] = restored_item tab st (TraceGroup g kids)"
      using False emp sh by simp
    moreover have "restore_frame (set (found_item tab st (TraceGroup g kids))) st' fresh
                     (set_owner ?st2 fresh (Some this)) fresh1"
      using keep le by (simp add: restore_frame_def set_owner_def)
    ultimately show ?thesis by blast
  qed
qed

lemma restored_forest_all:
  "(\<forall>t\<in>set (trace_tree_leaf_items items). tab (name (st (ptr_of t))) = Some (ptr_of t)) \<Longrightarrow>
   (\<forall>t\<in>set items. no_empty_group t) \<Longrightarrow> restored_forest tab st items = map shape_of items"
  "(\<forall>t\<in>set (leaf_items_of t). tab (name (st (ptr_of t))) = Some (ptr_of t)) \<Longrightarrow>
   no_empty_group t \<Longrightarrow> restored_item tab st t = [shape_of t]"
proof (induction items and t rule: trace_tree_leaf_items_leaf_items_of.induct)
  case 1
  show ?case by simp
next
  case (2 i rest)
  then show ?case by simp
next
  case (3 p)
  then show ?case by simp
next
  case (4 p kids)
  then have "restored_forest tab st kids = map shape_of kids" by simp
  moreover from "4.prems" have "kids \<noteq> []" by simp
  ultimately show ?case by simp
qed

lemma restore_saved_tree:
  assumes "distinct (found_forest tab st items)"
    and "\<forall>q\<in>set (found_forest tab st items). owner (st' q) = None \<and> q < fresh"
  shows "(\<exists>items' st'' fresh'.
            restore_trace_tree this [] (save_trace_tree st items empty_settings) tab st' fresh
              = Inr (items', st'', fresh')
            \<and> map shape_of items' = restored_forest tab st items)
       \<and> (names_all tab st items \<and> (\<forall>t\<in>set items. no_empty_group t)
            \<longrightarrow> restored_forest tab st items = map shape_of items)"
proof
  let ?s = "save_trace_tree st items empty_settings"
  have hc: "holds_children st ?s items" by (rule holds_children_save)
  then have iv: "items_value ?s \<noteq> None" by (simp add: holds_children_def)
  have "\<exists>G st1 fresh1.
        restore_loop this [] ?s 0 tab st' fresh = Inr ([] @ G, st1, fresh1)
        \<and> map shape_of G = restored_forest tab st (drop 0 items)
        \<and> restore_frame (set (found_forest tab st (drop 0 items))) st' fresh st1 fresh1"
  proof (rule restore_children [OF _ hc])
    show "distinct (found_forest tab st (drop 0 items))" using assms(1) by simp
    show "\<forall>q\<in>set (found_forest tab st (drop 0 items)). owner (st' q) = None \<and> q < fresh"
      using assms(2) by simp
  qed (use restore_item in simp_all)
  then obtain G st1 fresh1 where
    "restore_loop this [] ?s 0 tab st' fresh = Inr (G, st1, fresh1)"
    "map shape_of G = restored_forest tab st items" by auto
  with iv have "restore_trace_tree this [] ?s tab st' fresh = Inr (G, restack_items G st1, fresh1)
      \<and> map shape_of G = restored_forest tab st items"
    by (subst restore_trace_tree.simps) simp
  then show "\<exists>items' st'' fresh'.
            restore_trace_tree this [] ?s tab st' fresh = Inr (items', st'', fresh')
            \<and> map shape_of items' = restored_forest tab st items" by blast
  show "names_all tab st items \<and> (\<forall>t\<in>set items. no_empty_group t)
            \<longrightarrow> restored_forest tab st items = map shape_of items"
    using restored_forest_all(1) [of items tab st] by (simp add: names_all_def)
qed

lemma leaves_of_shape:
  "map ptr_of (trace_tree_leaf_items items) = concat (map shape_leaves (map shape_of items))"
  "map ptr_of (leaf_items_of t) = shape_leaves (shape_of t)"
  by (induction items and t rule: trace_tree_leaf_items_leaf_items_of.induct) simp_all

lemma leaf_items_Trace:
  "\<forall>x\<in>set (trace_tree_leaf_items items). x = Trace (ptr_of x)"
  "\<forall>x\<in>set (leaf_items_of t). x = Trace (ptr_of x)"
  by (induction items and t rule: trace_tree_leaf_items_leaf_items_of.induct) auto

lemma names_own_pruned:
  "(\<forall>t\<in>set (trace_tree_leaf_items items).
      tab (name (st (ptr_of t))) = None \<or> tab (name (st (ptr_of t))) = Some (ptr_of t)) \<Longrightarrow>
   restored_forest tab st items = pruned_forest tab st items
   \<and> found_forest tab st items
       = map ptr_of (filter (\<lambda>t. tab (name (st (ptr_of t))) \<noteq> None) (trace_tree_leaf_items items))
   \<and> concat (map shape_leaves (pruned_forest tab st items)) = found_forest tab st items"
  "(\<forall>t\<in>set (leaf_items_of t).
      tab (name (st (ptr_of t))) = None \<or> tab (name (st (ptr_of t))) = Some (ptr_of t)) \<Longrightarrow>
   restored_item tab st t = pruned_item tab st t
   \<and> found_item tab st t
       = map ptr_of (filter (\<lambda>t. tab (name (st (ptr_of t))) \<noteq> None) (leaf_items_of t))
   \<and> concat (map shape_leaves (pruned_item tab st t)) = found_item tab st t"
proof (induction items and t rule: trace_tree_leaf_items_leaf_items_of.induct)
  case 1
  show ?case by simp
next
  case (2 i rest)
  then show ?case by simp
next
  case (3 p)
  then show ?case by auto
next
  case (4 p kids)
  then have ih: "restored_forest tab st kids = pruned_forest tab st kids"
    "found_forest tab st kids
       = map ptr_of (filter (\<lambda>t. tab (name (st (ptr_of t))) \<noteq> None) (trace_tree_leaf_items kids))"
    "concat (map shape_leaves (pruned_forest tab st kids)) = found_forest tab st kids"
    by simp_all
  have "concat (map shape_leaves (pruned_item tab st (TraceGroup p kids))) = found_forest tab st kids"
    using ih(3) by (cases "pruned_forest tab st kids = []") auto
  with ih(1,2) show ?case by simp
qed

lemma pruned_forest_all:
  "(\<forall>t\<in>set (trace_tree_leaf_items items). tab (name (st (ptr_of t))) = Some (ptr_of t)) \<Longrightarrow>
   (\<forall>t\<in>set items. no_empty_group t) \<Longrightarrow> pruned_forest tab st items = map shape_of items"
  "(\<forall>t\<in>set (leaf_items_of t). tab (name (st (ptr_of t))) = Some (ptr_of t)) \<Longrightarrow>
   no_empty_group t \<Longrightarrow> pruned_item tab st t = [shape_of t]"
proof (induction items and t rule: trace_tree_leaf_items_leaf_items_of.induct)
  case 1
  show ?case by simp
next
  case (2 i rest)
  then show ?case by simp
next
  case (3 p)
  then show ?case by simp
next
  case (4 p kids)
  then have "pruned_forest tab st kids = map shape_of kids" by simp
  moreover from "4.prems" have "kids \<noteq> []" by simp
  ultimately show ?case by simp
qed

text \<open>
  C2, as amended: a tree whose leaves are distinct objects is saved into an empty store
  and restored into an owner without children, with a lookup table that maps every saved
  leaf name it holds to the leaf of that name; the leaves whose names it holds have no
  owner when the restore starts and lie below the next unused address.  Then the restore
  returns; the leaves of the restored tree are exactly the saved leaves whose names the
  table holds, the same objects in the same order; and the restored tree has the nesting
  of the saved one, but for the leaves left out and for the groups left without children
  by that, or saved empty, which are left out as well.  When the table holds the name of
  every leaf and no group is empty, the restored tree has the shape of the saved one.
\<close>

theorem save_restore_round_trip:
  assumes "names_own tab st items"
    and "distinct (map ptr_of (trace_tree_leaf_items items))"
    and "\<forall>t\<in>set (named_leaves tab st items). owner (st' (ptr_of t)) = None \<and> ptr_of t < fresh"
  shows "(\<exists>items' st'' fresh'.
            restore_trace_tree this [] (save_trace_tree st items empty_settings) tab st' fresh
              = Inr (items', st'', fresh')
            \<and> trace_tree_leaf_items items' = named_leaves tab st items
            \<and> map shape_of items' = pruned_forest tab st items)
       \<and> (names_all tab st items \<and> (\<forall>t\<in>set items. no_empty_group t)
            \<longrightarrow> pruned_forest tab st items = map shape_of items)"
proof
  note own = names_own_pruned(1) [OF assms(1) [unfolded names_own_def], folded named_leaves_def]
  have d: "distinct (found_forest tab st items)"
    using assms(2) by (simp add: own named_leaves_def distinct_map_filter)
  have o: "\<forall>q\<in>set (found_forest tab st items). owner (st' q) = None \<and> q < fresh"
    using assms(3) by (simp add: own)
  from restore_saved_tree [OF d o, of this] obtain items' st'' fresh' where
    run: "restore_trace_tree this [] (save_trace_tree st items empty_settings) tab st' fresh
            = Inr (items', st'', fresh')"
    and sh: "map shape_of items' = pruned_forest tab st items"
    by (auto simp: own)
  have "map ptr_of (trace_tree_leaf_items items') = map ptr_of (named_leaves tab st items)"
    by (simp add: leaves_of_shape(1) sh own)
  moreover have "\<forall>x\<in>set (trace_tree_leaf_items items'). x = Trace (ptr_of x)"
    by (rule leaf_items_Trace)
  moreover have "\<forall>x\<in>set (named_leaves tab st items). x = Trace (ptr_of x)"
    using leaf_items_Trace(1) [of items] by (simp add: named_leaves_def)
  ultimately have "trace_tree_leaf_items items' = named_leaves tab st items"
    by (metis (no_types, lifting) map_eq_conv map_map o_def list.map_id0 map_idI)
  with run sh show "\<exists>items' st'' fresh'.
            restore_trace_tree this [] (save_trace_tree st items empty_settings) tab st' fresh
              = Inr (items', st'', fresh')
            \<and> trace_tree_leaf_items items' = named_leaves tab st items
            \<and> map shape_of items' = pruned_forest tab st items" by blast
  show "names_all tab st items \<and> (\<forall>t\<in>set items. no_empty_group t)
            \<longrightarrow> pruned_forest tab st items = map shape_of items"
    using pruned_forest_all(1) [of items tab st] by (simp add: names_all_def)
qed

theorem save_restore_round_trip_witness:
  "\<exists>items' st'' fresh'.
     restore_trace_tree 0 [] (save_trace_tree c2_leaves [TraceGroup 1 [Trace 2], Trace 3] empty_settings)
         [''a'' \<mapsto> 2, ''b'' \<mapsto> 3] c2_leaves 4
       = Inr (items', st'', fresh')
     \<and> trace_tree_leaf_items items' = [Trace 2, Trace 3]
     \<and> map shape_of items' = [Group [Leaf 2], Leaf 3]"
proof -
  let ?tab = "[''a'' \<mapsto> 2, ''b'' \<mapsto> (3::nat)]"
  let ?items = "[TraceGroup 1 [Trace 2], Trace 3]"
  have n: "named_leaves ?tab c2_leaves ?items = [Trace 2, Trace 3]"
    by (simp add: named_leaves_def c2_leaves_def default_attrs_def)
  have r: "pruned_forest ?tab c2_leaves ?items = [Group [Leaf 2], Leaf 3]"
    by (simp add: c2_leaves_def default_attrs_def)
  have a: "names_own ?tab c2_leaves ?items"
    by (simp add: names_own_def c2_leaves_def default_attrs_def)
  have b: "distinct (map ptr_of (trace_tree_leaf_items ?items))" by simp
  have c: "\<forall>t\<in>set (named_leaves ?tab c2_leaves ?items). owner (c2_leaves (ptr_of t)) = None \<and> ptr_of t < 4"
    unfolding n by (simp add: c2_leaves_def default_attrs_def)
  from save_restore_round_trip [OF a b c, of 0] show ?thesis unfolding n r by (rule conjunct1)
qed

text \<open>
  C2 as stated fails.  A tree with an empty group and a leaf is saved, the owner is
  cleared, and the restore, with the leaf's name in the table, returns the leaf alone:
  the group is gone.  And after \<open>clear_child_items\<close> on an owner whose group holds a
  leaf, that leaf still points at the group, so that the restore stops at the assertion
  of \<open>add_child_item\<close>.
\<close>

theorem save_restore_round_trip_counterexample:
  "save_trace_tree c2_store [TraceGroup 1 [], Trace 2] empty_settings = c2_settings
   \<and> clear_child_items 0 [TraceGroup 1 [], Trace 2] c2_store = Inr ([], detach_all {1, 2} c2_store)
   \<and> restore_trace_tree 0 [] c2_settings [''a'' \<mapsto> 2] (detach_all {1, 2} c2_store) 3
       = Inr ([Trace 2],
              restack_items [Trace 2]
                (set_owner (set_owner (detach_all {1, 2} c2_store) 3 None) 2 (Some 0)), 4)
   \<and> map shape_of [Trace 2] \<noteq> map shape_of [TraceGroup 1 [], Trace 2]
   \<and> clear_child_items 0 [TraceGroup 1 [Trace 2]] c4_store = Inr ([], set_owner c4_store 1 None)
   \<and> restore_trace_tree 0 [] (save_trace_tree c4_store [TraceGroup 1 [Trace 2]] empty_settings)
         [[] \<mapsto> 2] (set_owner c4_store 1 None) 3
       = Inl AssertionFailed"
proof (intro conjI)
  show "save_trace_tree c2_store [TraceGroup 1 [], Trace 2] empty_settings = c2_settings"
    by (simp add: save_trace_tree_def trace_tree_child_items_def empty_settings_def
          beginGroup_def endGroup_def set_items_value_def set_trace_value_def c2_settings_def
          c2_store_def default_attrs_def)
  show "clear_child_items 0 [TraceGroup 1 [], Trace 2] c2_store = Inr ([], detach_all {1, 2} c2_store)"
    by (simp add: clear_child_items_def trace_tree_child_items_def clear_loop_eq owned_by_def
          c2_store_def default_attrs_def)
  show "restore_trace_tree 0 [] c2_settings [''a'' \<mapsto> 2] (detach_all {1, 2} c2_store) 3
       = Inr ([Trace 2],
              restack_items [Trace 2]
                (set_owner (set_owner (detach_all {1, 2} c2_store) 3 None) 2 (Some 0)), 4)"
    by (simp add: restore_trace_tree.simps restore_loop.simps c2_settings_def beginGroup_def
          items_count_def add_child_item_def set_owner_def detach_all_def c2_store_def
          default_attrs_def restack_items_def stable_sort_def trace_tree_child_items_def)
  show "map shape_of [Trace 2] \<noteq> map shape_of [TraceGroup 1 [], Trace 2]" by simp
  show "clear_child_items 0 [TraceGroup 1 [Trace 2]] c4_store = Inr ([], set_owner c4_store 1 None)"
    by (simp add: clear_child_items_def trace_tree_child_items_def c4_store_def)
  show "restore_trace_tree 0 [] (save_trace_tree c4_store [TraceGroup 1 [Trace 2]] empty_settings)
         [[] \<mapsto> 2] (set_owner c4_store 1 None) 3
       = Inl AssertionFailed"
    by (simp add: restore_trace_tree.simps restore_loop.simps save_trace_tree_def
          trace_tree_child_items_def empty_settings_def beginGroup_def endGroup_def
          set_items_value_def set_trace_value_def items_count_def add_child_item_def
          set_owner_def c4_store_def default_attrs_def)
qed

end
